theory Spec2Isabelle
  imports
    Complex_Main
    "HOL-Library.Char_ord"
    "HOL-Library.List_Lexorder"
    "HOL-Library.Sublist"
    "HOL-Library.Extended_Nat"
begin

section \<open>JavaScript strings\<close>

text \<open>
  A JavaScript string is modelled as the list of its code units, restricted to code units
  below 256 (\<^typ>\<open>char\<close> has eight bits).  The order \<open><\<close> on \<^typ>\<open>string\<close> is the
  lexicographic order on code units, which is how \<^verbatim>\<open>x < y\<close> compares two strings.

  \<^verbatim>\<open>String.prototype.trim\<close> removes white space and line terminators from both ends; in the
  range below 256 these are TAB, LF, VT, FF, CR, SP and NBSP.
\<close>

definition isWhitespace :: "char \<Rightarrow> bool" where
  "isWhitespace c = (of_char c \<in> {9, 10, 11, 12, 13, 32, 160 :: nat})"

definition trim :: "string \<Rightarrow> string" where
  "trim s = rev (dropWhile isWhitespace (rev (dropWhile isWhitespace s)))"



section \<open>Numbers read from version segments\<close>

text \<open>
  \<^verbatim>\<open>semverCompare\<close> (src/utils.js) applies unary \<^verbatim>\<open>+\<close> to each segment of a version string.
  A segment never contains \<^verbatim>\<open>.\<close>, \<^verbatim>\<open>+\<close> or \<^verbatim>\<open>-\<close> (they are the separators), so of the
  grammar of numeric string literals only these forms can occur: the empty or blank string
  (value 0), \<^verbatim>\<open>Infinity\<close>, decimal digits with an optional unsigned exponent, and the
  binary, octal and hexadecimal integer literals.  Every value is a non-negative integer or
  infinity, rounded to the nearest IEEE double (ties to even); \<open>None\<close> stands for NaN.
\<close>

definition isDigit :: "char \<Rightarrow> bool" where
  "isDigit c = (48 \<le> (of_char c :: nat) \<and> (of_char c :: nat) \<le> 57)"

definition digitVal :: "char \<Rightarrow> nat" where
  "digitVal c =
     (let n = (of_char c :: nat) in
      if 48 \<le> n \<and> n \<le> 57 then n - 48
      else if 97 \<le> n \<and> n \<le> 102 then n - 87
      else if 65 \<le> n \<and> n \<le> 70 then n - 55
      else 0)"

definition isDigitOf :: "nat \<Rightarrow> char \<Rightarrow> bool" where
  "isDigitOf base c =
     (let n = (of_char c :: nat) in
      ((48 \<le> n \<and> n \<le> 57) \<or> (97 \<le> n \<and> n \<le> 102) \<or> (65 \<le> n \<and> n \<le> 70))
      \<and> digitVal c < base)"

definition digitsVal :: "nat \<Rightarrow> string \<Rightarrow> nat" where
  "digitsVal base s = foldl (\<lambda>n c. base * n + digitVal c) 0 s"

fun bitlen :: "nat \<Rightarrow> nat" where
  "bitlen n = (if n = 0 then 0 else Suc (bitlen (n div 2)))"

declare bitlen.simps [simp del]

definition roundDouble :: "nat \<Rightarrow> enat" where
  "roundDouble n =
     (let k = bitlen n in
      if k \<le> 53 then enat n
      else
        let e = k - 53;
            q = n div 2 ^ e;
            r = n mod 2 ^ e;
            h = 2 ^ (e - 1);
            q' = (if h < r \<or> (r = h \<and> odd q) then q + 1 else q);
            m = q' * 2 ^ e
        in if 2 ^ 1024 \<le> m then \<infinity> else enat m)"

text \<open>
  What the rounding is measured against: a natural number fits a double when its
  significand has at most 53 bits.  (The predicate is not computed; a concrete number is
  shown to fit by naming its significand and exponent.)
\<close>

definition fits53 :: "nat \<Rightarrow> bool" where
  "fits53 r = (\<exists>m k. m < 2 ^ 53 \<and> r = m * 2 ^ k)"

definition nonDecimal :: "string \<Rightarrow> enat option" where
  "nonDecimal t =
     (case t of
        z # p # ds \<Rightarrow>
          if z = CHR ''0'' \<and> ds \<noteq> [] then
            (if (p = CHR ''x'' \<or> p = CHR ''X'') \<and> list_all (isDigitOf 16) ds
               then Some (roundDouble (digitsVal 16 ds))
             else if (p = CHR ''o'' \<or> p = CHR ''O'') \<and> list_all (isDigitOf 8) ds
               then Some (roundDouble (digitsVal 8 ds))
             else if (p = CHR ''b'' \<or> p = CHR ''B'') \<and> list_all (isDigitOf 2) ds
               then Some (roundDouble (digitsVal 2 ds))
             else None)
          else None
      | _ \<Rightarrow> None)"

definition segToNumber :: "string \<Rightarrow> enat option" where
  "segToNumber s =
     (let t = trim s;
          m = takeWhile isDigit t;
          r = dropWhile isDigit t
      in if t = [] then Some 0
         else if t = ''Infinity'' then Some \<infinity>
         else if m \<noteq> [] \<and> r = [] then Some (roundDouble (digitsVal 10 m))
         else if m \<noteq> [] \<and> (hd r = CHR ''e'' \<or> hd r = CHR ''E'')
                 \<and> tl r \<noteq> [] \<and> list_all isDigit (tl r)
           then Some (roundDouble (digitsVal 10 m * 10 ^ digitsVal 10 (tl r)))
         else nonDecimal t)"

section \<open>Version strings: \<^verbatim>\<open>semverCompare\<close>\<close>

text \<open>
  \<^verbatim>\<open>
  export function semverCompare(a, b) {
    const seg = s => String(s || "").split(/[.+\-]/).map(x => isNaN(+x) ? x : +x);
    const A = seg(a), B = seg(b), n = Math.max(A.length, B.length);
    for (let i = 0; i < n; i++) {
      const x = A[i], y = B[i];
      if (x === undefined) return -1;
      if (y === undefined) return 1;
      if (typeof x === typeof y) {
        if (x < y) return -1;
        if (x > y) return 1;
      } else {
        return (typeof x === 'number') ? 1 : -1
      }
    }
    return 0;
  }
  \<close>
  A segment is a number or a string.  The loop reads both arrays at the same index, so it
  is a recursion on the two lists; an exhausted array is the \<^verbatim>\<open>undefined\<close> read.
\<close>

datatype segment = SNum enat | SStr string

definition isSep :: "char \<Rightarrow> bool" where
  "isSep c = (c = CHR ''.'' \<or> c = CHR ''+'' \<or> c = CHR ''-'')"

fun splitSep :: "string \<Rightarrow> string list" where
  "splitSep [] = [[]]"
| "splitSep (c # cs) =
     (if isSep c then [] # splitSep cs
      else (c # hd (splitSep cs)) # tl (splitSep cs))"

definition coerce :: "string \<Rightarrow> segment" where
  "coerce x = (case segToNumber x of None \<Rightarrow> SStr x | Some n \<Rightarrow> SNum n)"

definition seg :: "string \<Rightarrow> segment list" where
  "seg s = map coerce (splitSep s)"

fun cmpSegs :: "segment list \<Rightarrow> segment list \<Rightarrow> int" where
  "cmpSegs [] [] = 0"
| "cmpSegs [] (y # ys) = - 1"
| "cmpSegs (x # xs) [] = 1"
| "cmpSegs (SNum m # xs) (SNum n # ys) =
     (if m < n then - 1 else if n < m then 1 else cmpSegs xs ys)"
| "cmpSegs (SStr s # xs) (SStr t # ys) =
     (if s < t then - 1 else if t < s then 1 else cmpSegs xs ys)"
| "cmpSegs (SNum m # xs) (SStr t # ys) = 1"
| "cmpSegs (SStr s # xs) (SNum n # ys) = - 1"

definition semverCompare :: "string \<Rightarrow> string \<Rightarrow> int" where
  "semverCompare a b = cmpSegs (seg a) (seg b)"

text \<open>The text that \<^verbatim>\<open>split\<close> cut apart: segments joined again by the separators.\<close>

fun joinSep :: "string \<Rightarrow> string list \<Rightarrow> string" where
  "joinSep seps [] = []"
| "joinSep seps [g] = g"
| "joinSep seps (g # gs) = g @ (case seps of [] \<Rightarrow> [] | c # cs \<Rightarrow> c # joinSep cs gs)"

section \<open>JavaScript values\<close>

text \<open>
  The values a parsed JSON document and an absent property can be.  \<open>JNum\<close> carries the
  number read (only whether it is zero matters below); \<open>JObj\<close> lists the own properties
  of an object.
\<close>

datatype jsval =
    JUndefined
  | JNull
  | JBool bool
  | JNum real
  | JStr string
  | JArr "jsval list"
  | JObj "(string \<times> jsval) list"

section \<open>Dates: \<^verbatim>\<open>Date.UTC\<close> and \<^verbatim>\<open>parseDateString\<close>\<close>

text \<open>
  A \<^verbatim>\<open>Date\<close> is its time value, the milliseconds since 1970-01-01T00:00:00Z; an invalid
  date (time value NaN) and the \<^verbatim>\<open>null\<close> that \<^verbatim>\<open>parseDateString\<close> returns are both
  \<open>None\<close>, since the function returns a date only after checking that it is valid.
  \<^verbatim>\<open>Date.UTC\<close> follows the language standard (MakeDay, MakeTime, MakeDate, TimeClip) on
  integer arguments.
\<close>

definition msPerDay :: int where
  "msPerDay = 86400000"

definition DayFromYear :: "int \<Rightarrow> int" where
  "DayFromYear y =
     365 * (y - 1970) + (y - 1969) div 4 - (y - 1901) div 100 + (y - 1601) div 400"

definition isLeapYear :: "int \<Rightarrow> bool" where
  "isLeapYear y = (y mod 4 = 0 \<and> (y mod 100 \<noteq> 0 \<or> y mod 400 = 0))"

definition daysBeforeMonth :: "bool \<Rightarrow> nat \<Rightarrow> int" where
  "daysBeforeMonth leap mn =
     [0, 31, 59, 90, 120, 151, 181, 212, 243, 273, 304, 334] ! mn
       + (if leap \<and> 2 \<le> mn then 1 else 0)"

definition MakeDay :: "int \<Rightarrow> int \<Rightarrow> int \<Rightarrow> int" where
  "MakeDay year month date =
     (let ym = year + month div 12;
          mn = nat (month mod 12)
      in DayFromYear ym + daysBeforeMonth (isLeapYear ym) mn + date - 1)"

definition MakeTime :: "int \<Rightarrow> int \<Rightarrow> int \<Rightarrow> int \<Rightarrow> int" where
  "MakeTime hour minute sec ms = hour * 3600000 + minute * 60000 + sec * 1000 + ms"

definition MakeDate :: "int \<Rightarrow> int \<Rightarrow> int" where
  "MakeDate day time = day * msPerDay + time"

definition TimeClip :: "int \<Rightarrow> int option" where
  "TimeClip t = (if 8640000000000000 < \<bar>t\<bar> then None else Some t)"

definition Date_UTC :: "int \<Rightarrow> int \<Rightarrow> int \<Rightarrow> int \<Rightarrow> int \<Rightarrow> int \<Rightarrow> int option" where
  "Date_UTC year month day hour minute second =
     (let yr = (if 0 \<le> year \<and> year \<le> 99 then 1900 + year else year)
      in TimeClip (MakeDate (MakeDay yr month day) (MakeTime hour minute second 0)))"

text \<open>
  Reading a time value back as a UTC calendar date and time of day: year, month (1 to 12),
  day of the month, hour, minute, second, millisecond.  The date is computed from the day
  number by the era arithmetic of the proleptic Gregorian calendar, independently of
  \<open>MakeDay\<close>.
\<close>

definition utcFields :: "int \<Rightarrow> int \<times> int \<times> int \<times> int \<times> int \<times> int \<times> int" where
  "utcFields t =
     (let days = t div msPerDay;
          tod = t mod msPerDay;
          z = days + 719468;
          era = z div 146097;
          doe = z mod 146097;
          yoe = (doe - doe div 1460 + doe div 36524 - doe div 146096) div 365;
          doy = doe - (365 * yoe + yoe div 4 - yoe div 100);
          mp = (5 * doy + 2) div 153;
          d = doy - (153 * mp + 2) div 5 + 1;
          m = (if mp < 10 then mp + 3 else mp - 9);
          y = yoe + era * 400 + (if m \<le> 2 then 1 else 0)
      in (y, m, d, tod div 3600000, tod mod 3600000 div 60000,
          tod mod 60000 div 1000, tod mod 1000))"

text \<open>
  \<^verbatim>\<open>
  export function parseDateString(s) {
    if (typeof s !== 'string' || s.trim() === '') return null;
    s = s.trim();
    let date = null;
    const fullDateMatch = s.match(/^(\d{4})(\d{2})(\d{2})(\d{2})(\d{2})(\d{2})$/);
    if (fullDateMatch) {
      const [_, year, month, day, hour, minute, second] = fullDateMatch;
      date = new Date(Date.UTC(parseInt(year), parseInt(month) - 1, parseInt(day),
                               parseInt(hour), parseInt(minute), parseInt(second)));
      if (!isNaN(date.getTime())) { return date; }
    }
    const t = Date.parse(s);
    if (!isNaN(t)) { date = new Date(t); if (!isNaN(date.getTime())) { return date; } }
    try {
      date = new Date(s);
      if (!isNaN(date.getTime())) { return date; }
      return null;
    } catch (e) { return null; }
  }
  \<close>
  \<^verbatim>\<open>Date.parse\<close> belongs to the engine and accepts formats of the engine's choosing: it is
  the parameter \<open>dp\<close>, giving the time value or \<open>None\<close> for NaN.  \<^verbatim>\<open>new Date(s)\<close> on a string
  parses it as \<^verbatim>\<open>Date.parse\<close> does.
\<close>

definition fullDateMatch :: "string \<Rightarrow> (string \<times> string \<times> string \<times> string \<times> string \<times> string) option" where
  "fullDateMatch s =
     (if length s = 14 \<and> list_all isDigit s
      then Some (take 4 s, take 2 (drop 4 s), take 2 (drop 6 s), take 2 (drop 8 s),
                 take 2 (drop 10 s), take 2 (drop 12 s))
      else None)"

definition parseInt :: "string \<Rightarrow> int" where
  "parseInt ds = int (digitsVal 10 ds)"

definition parseDateString :: "(string \<Rightarrow> int option) \<Rightarrow> jsval \<Rightarrow> int option" where
  "parseDateString dp v =
     (case v of
        JStr s0 \<Rightarrow>
          if trim s0 = [] then None
          else
            let s = trim s0;
                attempt1 =
                  (case fullDateMatch s of
                     Some (year, month, day, hour, minute, second) \<Rightarrow>
                       Date_UTC (parseInt year) (parseInt month - 1) (parseInt day)
                         (parseInt hour) (parseInt minute) (parseInt second)
                   | None \<Rightarrow> None)
            in (case attempt1 of
                  Some t \<Rightarrow> Some t
                | None \<Rightarrow>
                    (case dp s of
                       Some t \<Rightarrow> Some t
                     | None \<Rightarrow> (case dp s of Some t \<Rightarrow> Some t | None \<Rightarrow> None)))
      | _ \<Rightarrow> None)"


section \<open>Sorting with a comparator\<close>

text \<open>
  A comparator returns a JavaScript number, a real or \<open>NaN\<close>; NaN arises when an invalid
  date is subtracted.  \<^verbatim>\<open>Array.prototype.sort\<close> reads only the sign of the result and takes NaN as
  zero.  It is stable, so for a comparator that orders the elements consistently there is
  one possible outcome, and insertion from the right computes it: an element moves behind
  the elements it compares greater than.  (For an inconsistent comparator the standard
  leaves the order to the engine; the model then fixes the order of insertion sort.)
\<close>

datatype jsnum = Num real | NaN

fun positive :: "jsnum \<Rightarrow> bool" where
  "positive (Num n) = (0 < n)"
| "positive NaN = False"

fun insertBy :: "('a \<Rightarrow> 'a \<Rightarrow> jsnum) \<Rightarrow> 'a \<Rightarrow> 'a list \<Rightarrow> 'a list" where
  "insertBy cmp x [] = [x]"
| "insertBy cmp x (y # ys) =
     (if positive (cmp x y) then y # insertBy cmp x ys else x # y # ys)"

definition sortBy :: "('a \<Rightarrow> 'a \<Rightarrow> jsnum) \<Rightarrow> 'a list \<Rightarrow> 'a list" where
  "sortBy cmp xs = foldr (insertBy cmp) xs []"

section \<open>Apps, version records and \<^verbatim>\<open>mergeByBundle\<close>\<close>

text \<open>
  The canonical records that the controller works on (src/app.js).  A version record has
  the fields \<^verbatim>\<open>version\<close>, \<^verbatim>\<open>url\<close>, \<^verbatim>\<open>date\<close> and \<^verbatim>\<open>notes\<close>; an app has \<^verbatim>\<open>bundle\<close> (the field \<open>bundle_id\<close>), \<^verbatim>\<open>name\<close>,
  \<^verbatim>\<open>icon\<close>, \<^verbatim>\<open>dev\<close>, \<^verbatim>\<open>desc\<close>, \<^verbatim>\<open>source\<close> and \<^verbatim>\<open>versions\<close>.  A text field that is absent is
  the empty string (the code reads every one of them through \<^verbatim>\<open>|| ''\<close> or \<^verbatim>\<open>||\<close>); a date
  is \<open>None\<close> when it is \<^verbatim>\<open>null\<close> or absent.  The record of an app is polymorphic in what
  \<^verbatim>\<open>versions\<close> holds: the list of version records where a function is described by the value
  it returns, a reference to an array where the heap is modelled.  The search flattens an
  app and one of its
  versions into one object by \<^verbatim>\<open>{ ...app, ...v, _isVersion: true }\<close>, which puts the version's
  fields beside the app's: these are the last five fields (\<^verbatim>\<open>notes\<close> is \<open>relnotes\<close>), \<open>None\<close> and \<open>False\<close>
  on an app that was not flattened.
\<close>

record version_rec =
  v_version :: string
  v_url :: string
  v_date :: "string option"
  v_notes :: string

record 'v app_rec =
  bundle_id :: string
  name :: string
  icon :: string
  dev :: string
  desc :: string
  source :: string
  versions :: 'v
  version :: "string option"
  url :: "string option"
  date :: "string option"
  relnotes :: "string option"
  isVersion :: bool

type_synonym app = "version_rec list app_rec"

text \<open>
  \<^verbatim>\<open>
  function mergeByBundle(apps) {
    const map = new Map();
    for (const a of apps) {
      const b = (a.bundle || '').trim();
      if (!b) { // Keep separate when no bundle ID
        const key = Symbol('nobundle'); // Ensure uniqueness
        map.set(key, a);
        continue;
      }
      if (!map.has(b)) {
        map.set(b, { ...a, versions: [...(a.versions || [])] });
      } else {
        const acc = map.get(b);
        acc.name = acc.name || a.name;
        acc.icon = acc.icon || a.icon;
        acc.dev = acc.dev || a.dev;
        acc.desc = acc.desc || a.desc;
        const seen = new Set(acc.versions.map(v => `${v.version}|${v.url}`));
        for (const v of (a.versions || [])) {
          const id = `${v.version}|${v.url}`;
          if (!seen.has(id)) { acc.versions.push(v); seen.add(id); }
        }
        map.set(b, acc);
      }
    }
    for (const v of map.values()) {
      if (Array.isArray(v.versions)) {
        v.versions.sort((x, y) => {
          const dx = x.date ? new Date(x.date) : null;
          const dy = y.date ? new Date(y.date) : null;
          if (dx && dy) return dy - dx;
          if (dx) return -1;
          if (dy) return 1;
          return semverCompare(y.version, x.version);
        });
      }
    }
    return Array.from(map.values());
  }
  \<close>
  This section gives the value that \<^verbatim>\<open>mergeByBundle\<close> returns; the section on the heap gives
  the writes as well, and the two are proved to agree.  The \<^verbatim>\<open>Map\<close> keeps its keys in
  the order of first insertion, so it is an association list; a key is a trimmed bundle
  identifier or a fresh symbol, numbered by the size of the map at its creation.
\<close>

datatype mkey = KStr string | KSym nat

definition orElse :: "string \<Rightarrow> string \<Rightarrow> string" where
  "orElse x y = (if x \<noteq> [] then x else y)"

definition versionId :: "version_rec \<Rightarrow> string" where
  "versionId v = v_version v @ ''|'' @ v_url v"

fun addVersions :: "string list \<Rightarrow> version_rec list \<Rightarrow> version_rec list \<Rightarrow> version_rec list" where
  "addVersions seen acc [] = acc"
| "addVersions seen acc (v # vs) =
     (if versionId v \<in> set seen then addVersions seen acc vs
      else addVersions (versionId v # seen) (acc @ [v]) vs)"

definition mergeInto :: "app \<Rightarrow> app \<Rightarrow> app" where
  "mergeInto acc a =
     acc\<lparr> name := orElse (name acc) (name a),
          icon := orElse (icon acc) (icon a),
          dev := orElse (dev acc) (dev a),
          desc := orElse (desc acc) (desc a),
          versions := addVersions (map versionId (versions acc)) (versions acc) (versions a) \<rparr>"

fun mapSet :: "mkey \<Rightarrow> 'a \<Rightarrow> (mkey \<times> 'a) list \<Rightarrow> (mkey \<times> 'a) list" where
  "mapSet k v [] = [(k, v)]"
| "mapSet k v ((k', v') # m) = (if k = k' then (k, v) # m else (k', v') # mapSet k v m)"

definition mergeStep :: "(mkey \<times> app) list \<Rightarrow> app \<Rightarrow> (mkey \<times> app) list" where
  "mergeStep m a =
     (let b = trim (bundle_id a) in
      if b = [] then mapSet (KSym (length m)) a m
      else
        (case map_of m (KStr b) of
           None \<Rightarrow> mapSet (KStr b) (a\<lparr> versions := versions a \<rparr>) m
         | Some acc \<Rightarrow> mapSet (KStr b) (mergeInto acc a) m))"

text \<open>
  The comparator of the version sort.  \<open>dateOrNull\<close> is \<^verbatim>\<open>x.date ? new Date(x.date) : null\<close>:
  \<open>None\<close> is \<^verbatim>\<open>null\<close>, \<open>Some None\<close> is an invalid \<^verbatim>\<open>Date\<close> object, which is truthy like every
  object.  The difference of two dates is the difference of their time values, NaN when
  one is invalid.
\<close>

definition dateOrNull :: "(string \<Rightarrow> int option) \<Rightarrow> string option \<Rightarrow> int option option" where
  "dateOrNull dp d =
     (case d of None \<Rightarrow> None | Some s \<Rightarrow> if s = [] then None else Some (dp s))"

fun dateDiff :: "int option \<Rightarrow> int option \<Rightarrow> jsnum" where
  "dateDiff (Some a) (Some b) = Num (real_of_int (a - b))"
| "dateDiff _ _ = NaN"

definition cmpVersionRecords :: "(string \<Rightarrow> int option) \<Rightarrow> version_rec \<Rightarrow> version_rec \<Rightarrow> jsnum" where
  "cmpVersionRecords dp x y =
     (case (dateOrNull dp (v_date x), dateOrNull dp (v_date y)) of
        (Some dx, Some dy) \<Rightarrow> dateDiff dy dx
      | (Some dx, None) \<Rightarrow> Num (- 1)
      | (None, Some dy) \<Rightarrow> Num 1
      | (None, None) \<Rightarrow> Num (real_of_int (semverCompare (v_version y) (v_version x))))"

definition sortVersions :: "(string \<Rightarrow> int option) \<Rightarrow> app \<Rightarrow> app" where
  "sortVersions dp v = v\<lparr> versions := sortBy (cmpVersionRecords dp) (versions v) \<rparr>"

definition mergeByBundle :: "(string \<Rightarrow> int option) \<Rightarrow> app list \<Rightarrow> app list" where
  "mergeByBundle dp apps = map (sortVersions dp \<circ> snd) (foldl mergeStep [] apps)"

text \<open>
  The detail page (src/unnamed/part_000, \<^verbatim>\<open>start\<close>) sorts a version list with a second
  comparator:
  \<^verbatim>\<open>
  app.versions.sort((a, b) => {
    const da = parseDateString(a.date), db = parseDateString(b.date);
    if (da && db) { return db - da; }
    return semverCompare(b.version, a.version);
  });
  \<close>
\<close>

definition dateVal :: "string option \<Rightarrow> jsval" where
  "dateVal d = (case d of None \<Rightarrow> JNull | Some s \<Rightarrow> JStr s)"

definition cmpDetailVersions :: "(string \<Rightarrow> int option) \<Rightarrow> version_rec \<Rightarrow> version_rec \<Rightarrow> jsnum" where
  "cmpDetailVersions dp a b =
     (case (parseDateString dp (dateVal (v_date a)), parseDateString dp (dateVal (v_date b))) of
        (Some da, Some db) \<Rightarrow> Num (real_of_int (db - da))
      | _ \<Rightarrow> Num (real_of_int (semverCompare (v_version b) (v_version a))))"

section \<open>Search: \<^verbatim>\<open>searchApps\<close>\<close>

text \<open>
  \<^verbatim>\<open>
  export function searchApps(q, appsToSearch = allApps, limit=50){
    q = (q||'').trim();
    const targetApps = appsToSearch || allApps;
    if(!q) return targetApps.slice(0, limit);
    let currentFuse = fuse;
    if (targetApps !== allApps) { currentFuse = new Fuse(targetApps, fuseOpts); }
    const raw = currentFuse.search(q, { limit: limit * 2 });
    const qLower = q.toLowerCase();
    const scored = raw.map(r=>{
      const item = r.item;
      let rel = 1 - (r.score ?? 1);
      if(item.name && item.name.toLowerCase() === qLower) rel += 0.7;
      else if(item.name && item.name.toLowerCase().startsWith(qLower)) rel += 0.4;
      else if(item.name && item.name.toLowerCase().includes(qLower)) rel += 0.18;
      return { item, rel };
    }).sort((a,b)=>b.rel - a.rel).slice(0, limit).map(r=>r.item);
    return scored;
  }
  \<close>
  (src/unnamed/part_002).  Fuse.js is a library outside the repository: the parameter
  \<open>fuse\<close> stands for \<^verbatim>\<open>new Fuse(docs, fuseOpts).search(q, {limit})\<close> and returns the raw results,
  each an item with its fuzzy score (\<open>None\<close> when the score is absent).  The state of the
  module is the list \<^verbatim>\<open>allApps\<close> and the documents of the module's own index, \<open>None\<close> while
  \<^verbatim>\<open>fuse\<close> is still \<^verbatim>\<open>null\<close>; an explicit argument is always a different array from the
  module's private \<^verbatim>\<open>allApps\<close>.  Relevance is computed over the reals: the rounding of the
  two floating-point additions is not modelled.
\<close>

datatype error = Error string | TypeError string | ReferenceError string







section \<open>The controller: \<^verbatim>\<open>sortApps\<close> and \<^verbatim>\<open>filterAndPrepare\<close>\<close>















section \<open>The strict constructors of src/alt-source-kit.js\<close>

text \<open>
  \<^verbatim>\<open>
  class ASRepository {
    constructor(data) {
      if (!data || typeof data !== 'object') { throw new Error('Invalid repository data'); }
      this.identifier = data.identifier || '';
      ...
      this.userInfo = data.userInfo || {};
      this.apps = (data.apps || []).map(app => new App(app));
      this.featuredApps = data.featuredApps || [];
      this.news = (data.news || []).map(news => new News(news));
    }
  }
  \<close>
  and likewise \<^verbatim>\<open>App\<close>, \<^verbatim>\<open>Version\<close>, \<^verbatim>\<open>News\<close>, \<^verbatim>\<open>Permission\<close> and \<^verbatim>\<open>AppPermissions\<close>, each with its
  own guard and error message.  The input is a parsed JSON document, a \<^typ>\<open>jsval\<close>; the
  object built is the \<open>JObj\<close> of its fields in the order of assignment; a \<^verbatim>\<open>throw\<close> is the
  left injection.  Reading a property of an object gives its value or \<^verbatim>\<open>undefined\<close>; an
  array has none of the properties read here.  Calling \<^verbatim>\<open>.map\<close> on a truthy value that is not
  an array is a \<^verbatim>\<open>TypeError\<close>.
\<close>

fun truthy :: "jsval \<Rightarrow> bool" where
  "truthy JUndefined = False"
| "truthy JNull = False"
| "truthy (JBool b) = b"
| "truthy (JNum r) = (r \<noteq> 0)"
| "truthy (JStr s) = (s \<noteq> [])"
| "truthy (JArr xs) = True"
| "truthy (JObj kvs) = True"

fun typeof :: "jsval \<Rightarrow> string" where
  "typeof JUndefined = ''undefined''"
| "typeof JNull = ''object''"
| "typeof (JBool b) = ''boolean''"
| "typeof (JNum r) = ''number''"
| "typeof (JStr s) = ''string''"
| "typeof (JArr xs) = ''object''"
| "typeof (JObj kvs) = ''object''"

definition notObject :: "jsval \<Rightarrow> bool" where
  "notObject data = (\<not> truthy data \<or> typeof data \<noteq> ''object'')"

fun getProp :: "jsval \<Rightarrow> string \<Rightarrow> jsval" where
  "getProp (JObj kvs) k = (case map_of kvs k of None \<Rightarrow> JUndefined | Some v \<Rightarrow> v)"
| "getProp _ k = JUndefined"

definition orDefault :: "jsval \<Rightarrow> jsval \<Rightarrow> jsval" where
  "orDefault v d = (if truthy v then v else d)"

fun mapErr :: "('a \<Rightarrow> error + 'b) \<Rightarrow> 'a list \<Rightarrow> error + 'b list" where
  "mapErr f [] = Inr []"
| "mapErr f (x # xs) =
     (case f x of
        Inl e \<Rightarrow> Inl e
      | Inr y \<Rightarrow> (case mapErr f xs of Inl e \<Rightarrow> Inl e | Inr ys \<Rightarrow> Inr (y # ys)))"

definition mapArray :: "(jsval \<Rightarrow> error + jsval) \<Rightarrow> jsval \<Rightarrow> error + jsval list" where
  "mapArray f v =
     (if \<not> truthy v then Inr []
      else (case v of
              JArr xs \<Rightarrow> mapErr f xs
            | _ \<Rightarrow> Inl (TypeError ''map is not a function'')))"

definition field :: "jsval \<Rightarrow> string \<Rightarrow> jsval \<Rightarrow> string \<times> jsval" where
  "field data k d = (k, orDefault (getProp data k) d)"

definition newVersion :: "jsval \<Rightarrow> error + jsval" where
  "newVersion data =
     (if notObject data then Inl (Error ''Invalid version data'')
      else Inr (JObj
        [field data ''version'' (JStr []),
         field data ''buildVersion'' (JStr []),
         field data ''date'' (JStr []),
         field data ''localizedDescription'' (JStr []),
         field data ''downloadURL'' (JStr []),
         field data ''size'' (JNum 0),
         field data ''minOSVersion'' (JStr [])]))"

definition newNews :: "jsval \<Rightarrow> error + jsval" where
  "newNews data =
     (if notObject data then Inl (Error ''Invalid news data'')
      else Inr (JObj
        [field data ''identifier'' (JStr []),
         field data ''title'' (JStr []),
         field data ''caption'' (JStr []),
         field data ''tintColor'' (JStr []),
         field data ''imageURL'' (JStr []),
         field data ''url'' (JStr []),
         field data ''appID'' (JStr []),
         field data ''date'' (JStr []),
         field data ''notify'' (JBool False)]))"

definition newPermission :: "jsval \<Rightarrow> error + jsval" where
  "newPermission data =
     (if notObject data then Inl (Error ''Invalid permission data'')
      else Inr (JObj
        [field data ''type'' (JStr []),
         field data ''usageDescription'' (JStr [])]))"

definition newAppPermissions :: "jsval \<Rightarrow> error + jsval" where
  "newAppPermissions data =
     (if notObject data then Inl (Error ''Invalid app permissions data'')
      else Inr (JObj
        [field data ''entitlements'' (JObj []),
         field data ''privacy'' (JObj [])]))"

definition newApp :: "jsval \<Rightarrow> error + jsval" where
  "newApp data =
     (if notObject data then Inl (Error ''Invalid app data'')
      else
        case mapArray newVersion (getProp data ''versions'') of
          Inl e \<Rightarrow> Inl e
        | Inr vs \<Rightarrow>
        case mapArray newPermission (getProp data ''permissions'') of
          Inl e \<Rightarrow> Inl e
        | Inr ps \<Rightarrow>
        case (if truthy (getProp data ''appPermissions'')
              then newAppPermissions (getProp data ''appPermissions'') else Inr JNull) of
          Inl e \<Rightarrow> Inl e
        | Inr ap \<Rightarrow>
            Inr (JObj
              [field data ''bundleIdentifier'' (JStr []),
               field data ''name'' (JStr []),
               field data ''subtitle'' (JStr []),
               field data ''description'' (JStr []),
               field data ''developerName'' (JStr []),
               (''versions'', JArr vs),
               field data ''version'' (JStr []),
               field data ''versionDate'' (JStr []),
               field data ''versionDescription'' (JStr []),
               field data ''downloadURL'' (JStr []),
               field data ''localizedDescription'' (JStr []),
               field data ''iconURL'' (JStr []),
               field data ''tintColor'' (JStr []),
               field data ''size'' (JNum 0),
               field data ''category'' (JStr []),
               field data ''beta'' (JBool False),
               (''permissions'', JArr ps),
               (''appPermissions'', ap),
               field data ''screenshots'' (JArr []),
               field data ''screenshotURLs'' (JArr [])]))"

definition newASRepository :: "jsval \<Rightarrow> error + jsval" where
  "newASRepository data =
     (if notObject data then Inl (Error ''Invalid repository data'')
      else
        case mapArray newApp (getProp data ''apps'') of
          Inl e \<Rightarrow> Inl e
        | Inr apps \<Rightarrow>
        case mapArray newNews (getProp data ''news'') of
          Inl e \<Rightarrow> Inl e
        | Inr news \<Rightarrow>
            Inr (JObj
              [field data ''identifier'' (JStr []),
               field data ''name'' (JStr []),
               field data ''subtitle'' (JStr []),
               field data ''description'' (JStr []),
               field data ''website'' (JStr []),
               field data ''iconURL'' (JStr []),
               field data ''headerURL'' (JStr []),
               field data ''tintColor'' (JStr []),
               field data ''patreonURL'' (JStr []),
               field data ''userInfo'' (JObj []),
               (''apps'', JArr apps),
               field data ''featuredApps'' (JArr []),
               (''news'', JArr news)]))"

text \<open>
  The documents that the constructors accept, in the words of the data model rather than
  of the code.  An object is an object or an array (\<^verbatim>\<open>typeof\<close> gives \<^verbatim>\<open>object\<close> for both and
  both are truthy).  A list field is acceptable when it is absent (or otherwise falsy) or
  an array whose elements are all acceptable.  An app is acceptable when it is an object,
  its \<^verbatim>\<open>versions\<close> and \<^verbatim>\<open>permissions\<close> are lists of objects and its \<^verbatim>\<open>appPermissions\<close> is absent or
  an object; a document when it is an object, its \<^verbatim>\<open>apps\<close> is a list of acceptable apps and
  its \<^verbatim>\<open>news\<close> a list of objects.  \<open>elements\<close> are the elements of a list field.
\<close>

definition isObject :: "jsval \<Rightarrow> bool" where
  "isObject v = (case v of JArr xs \<Rightarrow> True | JObj kvs \<Rightarrow> True | _ \<Rightarrow> False)"

definition elements :: "jsval \<Rightarrow> jsval list" where
  "elements v = (case v of JArr xs \<Rightarrow> xs | _ \<Rightarrow> [])"

definition listOf :: "(jsval \<Rightarrow> bool) \<Rightarrow> jsval \<Rightarrow> bool" where
  "listOf ok v = (case v of JArr xs \<Rightarrow> list_all ok xs | _ \<Rightarrow> \<not> truthy v)"

definition appAccepted :: "jsval \<Rightarrow> bool" where
  "appAccepted a =
     (isObject a
      \<and> listOf isObject (getProp a ''versions'')
      \<and> listOf isObject (getProp a ''permissions'')
      \<and> (truthy (getProp a ''appPermissions'') \<longrightarrow> isObject (getProp a ''appPermissions'')))"

definition docAccepted :: "jsval \<Rightarrow> bool" where
  "docAccepted d =
     (isObject d
      \<and> listOf appAccepted (getProp d ''apps'')
      \<and> listOf isObject (getProp d ''news''))"

section \<open>\<^verbatim>\<open>mergeByBundle\<close> on the heap\<close>

text \<open>
  Whether \<^verbatim>\<open>mergeByBundle\<close> changes its input depends on which objects and arrays are shared,
  so here the app objects and the \<^verbatim>\<open>versions\<close> arrays live in a store, at addresses.  An app
  object holds the address of its \<^verbatim>\<open>versions\<close> array (\<open>None\<close> when the field is absent); the
  \<^verbatim>\<open>Map\<close> holds addresses of app objects.  Version records are never written to, so the
  arrays hold them as values.  \<^verbatim>\<open>map.set(key, a)\<close> stores the input object itself;
  \<^verbatim>\<open>{ ...a, versions: [...(a.versions || [])] }\<close> allocates a new array and a new object;
  \<^verbatim>\<open>acc.name = ...\<close>, \<^verbatim>\<open>acc.versions.push(v)\<close> and \<^verbatim>\<open>v.versions.sort(...)\<close> write to the object and
  the array that the address names.  The result is \<open>None\<close> only if an address is read that
  the store does not hold, which a JavaScript heap rules out.
\<close>

type_synonym app_obj = "nat option app_rec"

record heap =
  objs :: "nat \<Rightarrow> app_obj option"
  arrs :: "nat \<Rightarrow> version_rec list option"
  fresh :: nat

definition readVersions :: "heap \<Rightarrow> app_obj \<Rightarrow> version_rec list option" where
  "readVersions h ob = (case versions ob of None \<Rightarrow> Some [] | Some r \<Rightarrow> arrs h r)"

definition mergeStepH ::
  "(mkey \<times> nat) list \<Rightarrow> heap \<Rightarrow> nat \<Rightarrow> ((mkey \<times> nat) list \<times> heap) option" where
  "mergeStepH m h a =
     (case objs h a of
        None \<Rightarrow> None
      | Some ob \<Rightarrow>
          let b = trim (bundle_id ob) in
          if b = [] then Some (mapSet (KSym (length m)) a m, h)
          else
            (case readVersions h ob of
               None \<Rightarrow> None
             | Some avs \<Rightarrow>
                 (case map_of m (KStr b) of
                    None \<Rightarrow>
                      let ar = fresh h;
                          cp = fresh h + 1
                      in Some (mapSet (KStr b) cp m,
                               h\<lparr> arrs := (arrs h)(ar \<mapsto> avs),
                                  objs := (objs h)(cp \<mapsto> ob\<lparr> versions := Some ar \<rparr>),
                                  fresh := fresh h + 2 \<rparr>)
                  | Some accAddr \<Rightarrow>
                      (case objs h accAddr of
                         None \<Rightarrow> None
                       | Some acc \<Rightarrow>
                           (case versions acc of
                              None \<Rightarrow> None
                            | Some accArr \<Rightarrow>
                                (case arrs h accArr of
                                   None \<Rightarrow> None
                                 | Some accVs \<Rightarrow>
                                     Some (mapSet (KStr b) accAddr m,
                                       h\<lparr> objs := (objs h)(accAddr \<mapsto>
                                              acc\<lparr> name := orElse (name acc) (name ob),
                                                   icon := orElse (icon acc) (icon ob),
                                                   dev := orElse (dev acc) (dev ob),
                                                   desc := orElse (desc acc) (desc ob) \<rparr>),
                                          arrs := (arrs h)(accArr \<mapsto>
                                              addVersions (map versionId accVs) accVs avs) \<rparr>)))))))"

fun mergeLoopH ::
  "(mkey \<times> nat) list \<Rightarrow> heap \<Rightarrow> nat list \<Rightarrow> ((mkey \<times> nat) list \<times> heap) option" where
  "mergeLoopH m h [] = Some (m, h)"
| "mergeLoopH m h (a # as) =
     (case mergeStepH m h a of
        None \<Rightarrow> None
      | Some (m', h') \<Rightarrow> mergeLoopH m' h' as)"

fun sortLoopH :: "(string \<Rightarrow> int option) \<Rightarrow> heap \<Rightarrow> nat list \<Rightarrow> heap option" where
  "sortLoopH dp h [] = Some h"
| "sortLoopH dp h (v # vs) =
     (case objs h v of
        None \<Rightarrow> None
      | Some ob \<Rightarrow>
          (case versions ob of
             None \<Rightarrow> sortLoopH dp h vs
           | Some r \<Rightarrow>
               (case arrs h r of
                  None \<Rightarrow> None
                | Some xs \<Rightarrow>
                    sortLoopH dp (h\<lparr> arrs := (arrs h)(r \<mapsto> sortBy (cmpVersionRecords dp) xs) \<rparr>) vs)))"

definition mergeByBundleH ::
  "(string \<Rightarrow> int option) \<Rightarrow> heap \<Rightarrow> nat list \<Rightarrow> (nat list \<times> heap) option" where
  "mergeByBundleH dp h apps =
     (case mergeLoopH [] h apps of
        None \<Rightarrow> None
      | Some (m, h1) \<Rightarrow>
          (case sortLoopH dp h1 (map snd m) of
             None \<Rightarrow> None
           | Some h2 \<Rightarrow> Some (map snd m, h2)))"

text \<open>
  The invariant of the merge loop when every input app has a bundle identifier, relative
  to the heap \<open>h0\<close> at the call: nothing below the allocation mark of \<open>h0\<close> has changed, and
  every object in the \<^verbatim>\<open>Map\<close>, with its \<^verbatim>\<open>versions\<close> array, was allocated during the call.
\<close>

definition frameInv :: "heap \<Rightarrow> (mkey \<times> nat) list \<Rightarrow> heap \<Rightarrow> bool" where
  "frameInv h0 m h =
     (fresh h0 \<le> fresh h
      \<and> (\<forall>x < fresh h0. objs h x = objs h0 x \<and> arrs h x = arrs h0 x)
      \<and> (\<forall>(k, v) \<in> set m. fresh h0 \<le> v
            \<and> (\<forall>ob. objs h v = Some ob \<longrightarrow> (\<exists>r. versions ob = Some r \<and> fresh h0 \<le> r))))"

section \<open>What the merge is measured against\<close>

text \<open>
  The first non-empty value of a field in a group, as the data model words the merge
  policy; the group of a bundle identifier, in the order of the input; and the invariant of
  the loop over the input: keys are distinct, the entry under a bundle identifier holds the
  first non-empty value of each scalar field over the part of its group read so far, an
  entry under a symbol has no bundle identifier, and every bundle identifier read so far
  has its entry.
\<close>

definition firstNonEmpty :: "string list \<Rightarrow> string" where
  "firstNonEmpty xs = (case filter (\<lambda>s. s \<noteq> []) xs of [] \<Rightarrow> [] | x # _ \<Rightarrow> x)"

definition groupOf :: "string \<Rightarrow> app list \<Rightarrow> app list" where
  "groupOf b apps = filter (\<lambda>a. trim (bundle_id a) = b) apps"

definition entryOk :: "app list \<Rightarrow> nat \<Rightarrow> mkey \<Rightarrow> app \<Rightarrow> bool" where
  "entryOk apps n k v =
     (case k of
        KStr b \<Rightarrow> b \<noteq> [] \<and> trim (bundle_id v) = b
          \<and> name v = firstNonEmpty (map name (groupOf b apps))
          \<and> icon v = firstNonEmpty (map icon (groupOf b apps))
          \<and> dev v = firstNonEmpty (map dev (groupOf b apps))
          \<and> desc v = firstNonEmpty (map desc (groupOf b apps))
      | KSym i \<Rightarrow> trim (bundle_id v) = [] \<and> i < n)"

definition mergeInv :: "app list \<Rightarrow> (mkey \<times> app) list \<Rightarrow> bool" where
  "mergeInv apps m =
     (distinct (map fst m)
      \<and> (\<forall>(k, v) \<in> set m. entryOk apps (length m) k v)
      \<and> (\<forall>a \<in> set apps. trim (bundle_id a) \<noteq> [] \<longrightarrow> KStr (trim (bundle_id a)) \<in> fst ` set m))"

section \<open>An engine and sample records for concrete runs\<close>

text \<open>
  Every engine parses the date-only form \<^verbatim>\<open>YYYY-MM-DD\<close> of the standard's date-time
  format, as midnight UTC.  \<open>isoDateParse\<close> is \<^verbatim>\<open>Date.parse\<close> cut down to that form: NaN on
  every other string.  It instantiates \<open>dp\<close> where a concrete run needs an engine.
\<close>

definition daysInMonth :: "int \<Rightarrow> int \<Rightarrow> int" where
  "daysInMonth y m =
     (if m = 2 then (if isLeapYear y then 29 else 28)
      else if m = 4 \<or> m = 6 \<or> m = 9 \<or> m = 11 then 30 else 31)"

definition isoDateParse :: "string \<Rightarrow> int option" where
  "isoDateParse s =
     (if length s = 10 \<and> list_all isDigit (take 4 s) \<and> s ! 4 = CHR ''-''
         \<and> list_all isDigit (take 2 (drop 5 s)) \<and> s ! 7 = CHR ''-''
         \<and> list_all isDigit (drop 8 s)
      then
        let y = parseInt (take 4 s);
            m = parseInt (take 2 (drop 5 s));
            d = parseInt (drop 8 s)
        in if 1 \<le> m \<and> m \<le> 12 \<and> 1 \<le> d \<and> d \<le> daysInMonth y m
           then TimeClip (MakeDate (MakeDay y (m - 1) d) 0)
           else None
      else None)"

definition mkVersion :: "string \<Rightarrow> string \<Rightarrow> string option \<Rightarrow> version_rec" where
  "mkVersion ver u d = \<lparr> v_version = ver, v_url = u, v_date = d, v_notes = [] \<rparr>"

definition mkApp :: "string \<Rightarrow> string \<Rightarrow> string \<Rightarrow> version_rec list \<Rightarrow> app" where
  "mkApp b n src vs =
     \<lparr> bundle_id = b, name = n, icon = [], dev = [], desc = [], source = src,
       versions = vs, version = None, url = None, date = None, relnotes = None,
       isVersion = False \<rparr>"




text \<open>
  A heap with one app object at address 0 whose \<^verbatim>\<open>versions\<close> array, at address 1, lists
  version 1.0 before version 2.0, neither with a date.
\<close>

definition mkObj :: "string \<Rightarrow> string \<Rightarrow> string \<Rightarrow> nat option \<Rightarrow> app_obj" where
  "mkObj b n src r =
     \<lparr> bundle_id = b, name = n, icon = [], dev = [], desc = [], source = src,
       versions = r, version = None, url = None, date = None, relnotes = None,
       isVersion = False \<rparr>"

definition oneAppHeap :: "string \<Rightarrow> heap" where
  "oneAppHeap b =
     \<lparr> objs = Map.empty(0 \<mapsto> mkObj b ''Solo'' ''A'' (Some 1)),
       arrs = Map.empty(1 \<mapsto> [mkVersion ''1.0'' ''u1'' None, mkVersion ''2.0'' ''u2'' None]),
       fresh = 2 \<rparr>"

text \<open>
  Reading the heap back as values.  \<open>absObj\<close> is the app record that an object stands for,
  with the content of its \<^verbatim>\<open>versions\<close> array in place of the reference; \<open>holds h v A\<close> says
  that address \<open>v\<close> holds an object that stands for \<open>A\<close>; \<open>valueOf\<close> reads an input address
  (what it gives for an address that holds no object is immaterial).  An input is well
  formed when the addresses are distinct, allocated, their arrays allocated, and no two
  input objects share one array.  \<open>simInv\<close> is the invariant that ties the loop on the
  heap to the loop on values: the two maps have the same keys in the same order and each
  address holds the value beside it; nothing allocated before the call has changed; the
  object under a bundle identifier and its array were allocated during the call, side by
  side; an object under a symbol is an input object.
\<close>

definition absObj :: "heap \<Rightarrow> app_obj \<Rightarrow> app" where
  "absObj h ob =
     \<lparr> bundle_id = bundle_id ob, name = name ob, icon = icon ob, dev = dev ob,
       desc = desc ob, source = source ob,
       versions = (case readVersions h ob of None \<Rightarrow> [] | Some xs \<Rightarrow> xs),
       version = version ob, url = url ob, date = date ob, relnotes = relnotes ob,
       isVersion = isVersion ob \<rparr>"

definition holds :: "heap \<Rightarrow> nat \<Rightarrow> app \<Rightarrow> bool" where
  "holds h v A = (\<exists>ob. objs h v = Some ob \<and> absObj h ob = A
      \<and> (\<forall>r. versions ob = Some r \<longrightarrow> arrs h r \<noteq> None))"

definition wfInput :: "heap \<Rightarrow> nat list \<Rightarrow> bool" where
  "wfInput h apps =
     (distinct apps
      \<and> (\<forall>a \<in> set apps. a < fresh h
            \<and> (\<exists>ob. objs h a = Some ob
                  \<and> (\<forall>r. versions ob = Some r \<longrightarrow> r < fresh h \<and> arrs h r \<noteq> None)))
      \<and> (\<forall>a \<in> set apps. \<forall>b \<in> set apps. \<forall>oa ob r.
            objs h a = Some oa \<and> objs h b = Some ob
              \<and> versions oa = Some r \<and> versions ob = Some r \<longrightarrow> a = b))"

definition inputOk :: "heap \<Rightarrow> nat \<Rightarrow> bool" where
  "inputOk h a =
     (a < fresh h
      \<and> (\<exists>ob. objs h a = Some ob
            \<and> (\<forall>r. versions ob = Some r \<longrightarrow> r < fresh h \<and> arrs h r \<noteq> None)))"

definition valueOf :: "heap \<Rightarrow> nat \<Rightarrow> app" where
  "valueOf h a = (case objs h a of None \<Rightarrow> mkApp [] [] [] [] | Some ob \<Rightarrow> absObj h ob)"

definition entryH :: "heap \<Rightarrow> heap \<Rightarrow> nat list \<Rightarrow> nat \<Rightarrow> mkey \<Rightarrow> nat \<Rightarrow> bool" where
  "entryH h0 h done n k v =
     (case k of
        KStr b \<Rightarrow> fresh h0 < v \<and> v < fresh h
          \<and> (\<exists>ob. objs h v = Some ob \<and> versions ob = Some (v - 1))
      | KSym i \<Rightarrow> i < n \<and> v \<in> set done)"

definition simInv ::
  "heap \<Rightarrow> nat list \<Rightarrow> (mkey \<times> app) list \<Rightarrow> (mkey \<times> nat) list \<Rightarrow> heap \<Rightarrow> bool" where
  "simInv h0 done M m h =
     (list_all2 (\<lambda>e E. fst e = fst E \<and> holds h (snd e) (snd E)) m M
      \<and> fresh h0 \<le> fresh h
      \<and> (\<forall>x < fresh h0. objs h x = objs h0 x \<and> arrs h x = arrs h0 x)
      \<and> (\<forall>(k, v) \<in> set m. entryH h0 h done (length m) k v)
      \<and> distinct (map fst m)
      \<and> distinct (map snd m)
      \<and> (\<forall>v \<in> set done. inputOk h0 v))"

definition arrOf :: "heap \<Rightarrow> nat \<Rightarrow> nat option" where
  "arrOf h v = (case objs h v of None \<Rightarrow> None | Some ob \<Rightarrow> versions ob)"

section \<open>Properties of the version comparator\<close>

lemma cmpSegs_antisym: "cmpSegs xs ys = - cmpSegs ys xs"
  by (induction xs ys rule: cmpSegs.induct) auto

lemma cmpSegs_refl: "cmpSegs xs xs = 0"
proof (induction xs)
  case Nil
  show ?case by simp
next
  case (Cons x xs)
  then show ?case by (cases x) simp_all
qed

lemma splitSep_nonempty: "splitSep s \<noteq> []"
  by (induction s) auto

lemma joinSep_Cons:
  "gs \<noteq> [] \<Longrightarrow> joinSep (c # cs) (g # gs) = g @ c # joinSep cs gs"
  by (cases gs) auto

lemma joinSep_hd:
  "gs \<noteq> [] \<Longrightarrow> joinSep cs ((x # hd gs) # tl gs) = x # joinSep cs gs"
  by (cases gs; cases "tl gs") auto

lemma splitSep_join: "joinSep (filter isSep s) (splitSep s) = s"
  by (induction s) (simp_all add: splitSep_nonempty joinSep_Cons joinSep_hd)

lemma splitSep_no_sep: "g \<in> set (splitSep s) \<Longrightarrow> c \<in> set g \<Longrightarrow> \<not> isSep c"
proof (induction s arbitrary: g)
  case Nil
  then show ?case by simp
next
  case (Cons x s)
  have ne: "splitSep s \<noteq> []" by (rule splitSep_nonempty)
  show ?case
  proof (cases "isSep x")
    case True
    with Cons show ?thesis by auto
  next
    case False
    from Cons.prems False have "g = x # hd (splitSep s) \<or> g \<in> set (tl (splitSep s))"
      by simp
    then show ?thesis
    proof
      assume g: "g = x # hd (splitSep s)"
      from ne have "hd (splitSep s) \<in> set (splitSep s)" by simp
      with Cons.IH Cons.prems(2) g False show ?thesis by auto
    next
      assume "g \<in> set (tl (splitSep s))"
      with ne have "g \<in> set (splitSep s)" by (meson list.set_sel(2))
      with Cons.IH Cons.prems(2) show ?thesis by blast
    qed
  qed
qed

lemma splitSep_length: "length (splitSep s) = Suc (length (filter isSep s))"
  by (induction s) (simp_all add: splitSep_nonempty)

lemma cmpSegs_missing: "cmpSegs p (p @ y # r) = - 1"
proof (induction p)
  case Nil
  show ?case by simp
next
  case (Cons x p)
  then show ?case by (cases x) simp_all
qed

lemma cmpSegs_common:
  "cmpSegs (p @ xs) (p @ ys) = cmpSegs xs ys"
proof (induction p)
  case Nil
  show ?case by simp
next
  case (Cons x p)
  then show ?case by (cases x) simp_all
qed

lemma bitlen_le: "n < 2 ^ k \<Longrightarrow> bitlen n \<le> k"
proof (induction k arbitrary: n)
  case 0
  then show ?case by (simp add: bitlen.simps)
next
  case (Suc k)
  show ?case
  proof (cases "n = 0")
    case True
    then show ?thesis by (simp add: bitlen.simps)
  next
    case False
    from Suc.prems have "n div 2 < 2 ^ k" by simp
    then have "bitlen (n div 2) \<le> k" by (rule Suc.IH)
    with False show ?thesis by (subst bitlen.simps) simp
  qed
qed

lemma roundDouble_exact: "n < 2 ^ 53 \<Longrightarrow> roundDouble n = enat n"
  using bitlen_le [of n 53] by (simp add: roundDouble_def)

lemma isDigit_not_ws: "isDigit c \<Longrightarrow> \<not> isWhitespace c"
  by (auto simp: isDigit_def isWhitespace_def)

lemma trim_digits: "list_all isDigit d \<Longrightarrow> d \<noteq> [] \<Longrightarrow> trim d = d"
proof -
  assume a: "list_all isDigit d" and ne: "d \<noteq> []"
  from a ne have h: "\<not> isWhitespace (hd d)"
    by (cases d) (auto simp: isDigit_not_ws)
  from a ne have l: "\<not> isWhitespace (last d)"
    by (metis isDigit_not_ws last_in_set list_all_iff)
  from h ne have 1: "dropWhile isWhitespace d = d" by (cases d) auto
  from l ne have 2: "dropWhile isWhitespace (rev d) = rev d"
    by (cases "rev d") (auto simp: last_rev hd_rev [symmetric] dest: arg_cong [where f = hd])
  show ?thesis by (simp add: trim_def 1 2)
qed

lemma coerce_digits:
  assumes "d \<noteq> []" "list_all isDigit d" "digitsVal 10 d < 2 ^ 53"
  shows "coerce d = SNum (enat (digitsVal 10 d))"
proof -
  have t: "trim d = d" using assms by (simp add: trim_digits)
  have tw: "takeWhile isDigit d = d" using assms(2) by (simp add: list_all_iff)
  have dw: "dropWhile isDigit d = []" using assms(2) by (simp add: list_all_iff)
  have ninf: "d \<noteq> ''Infinity''" using assms(2) by (auto simp: isDigit_def)
  show ?thesis
    using assms(1,3) ninf
    by (simp add: coerce_def segToNumber_def t tw dw roundDouble_exact Let_def)
qed
lemma cmpSegs_missing_right: "cmpSegs (p @ y # r) p = 1"
  using cmpSegs_antisym [of "p @ y # r" p] by (simp add: cmpSegs_missing)

text \<open>
  C6.  For all version strings \<open>a\<close> and \<open>b\<close>, comparing \<open>a\<close> with \<open>b\<close> gives the negation
  of comparing \<open>b\<close> with \<open>a\<close>, and comparing a version string with itself gives 0.
\<close>

theorem semverCompare_antisymmetric:
  "semverCompare a b = - semverCompare b a \<and> semverCompare a a = 0"
  unfolding semverCompare_def
  using cmpSegs_antisym [of "seg a" "seg b"] cmpSegs_refl [of "seg a"] by simp

lemma char_eq_iff_code: "c = d \<longleftrightarrow> (of_char c :: nat) = of_char d"
  by simp

lemma isDigit_iff: "isDigit c \<longleftrightarrow> c \<in> set ''0123456789''"
  unfolding isDigit_def by (simp add: char_eq_iff_code [of c]; arith)

lemma isDigitOf16_if: "c \<in> set ''0123456789abcdefABCDEF'' \<Longrightarrow> isDigitOf 16 c"
  by (auto simp: isDigitOf_def digitVal_def)

lemma isDigitOf8_if: "c \<in> set ''01234567'' \<Longrightarrow> isDigitOf 8 c"
  by (auto simp: isDigitOf_def digitVal_def)

lemma isDigitOf2_if: "c \<in> set ''01'' \<Longrightarrow> isDigitOf 2 c"
  by (auto simp: isDigitOf_def digitVal_def)

lemma isDigitOf_not_ws: "isDigitOf b c \<Longrightarrow> \<not> isWhitespace c"
  by (auto simp: isDigitOf_def isWhitespace_def Let_def)

lemma trim_id:
  assumes ne: "t \<noteq> []" and h: "\<not> isWhitespace (hd t)" and l: "\<not> isWhitespace (last t)"
  shows "trim t = t"
proof -
  from h ne have 1: "dropWhile isWhitespace t = t" by (cases t) auto
  from l ne have 2: "dropWhile isWhitespace (rev t) = rev t"
    by (cases "rev t") (auto simp: last_rev hd_rev [symmetric] dest: arg_cong [where f = hd])
  show ?thesis by (simp add: trim_def 1 2)
qed

lemma trim_blank: "list_all isWhitespace w \<Longrightarrow> trim w = []"
proof -
  assume a: "list_all isWhitespace w"
  then have d: "dropWhile isWhitespace w = []" by (induction w) simp_all
  show ?thesis unfolding trim_def d by simp
qed

lemma coerce_blank: "list_all isWhitespace w \<Longrightarrow> coerce w = SNum 0"
  by (simp add: coerce_def segToNumber_def trim_blank)

lemma coerce_text:
  assumes ne: "trim s \<noteq> []" and ni: "trim s \<noteq> ''Infinity''" and nd: "\<not> isDigit (hd (trim s))"
  shows "coerce s = SStr s"
proof -
  from ne nd have tw: "takeWhile isDigit (trim s) = []" by (cases "trim s") auto
  have z0: "hd (trim s) \<noteq> CHR ''0''" using nd by (auto simp: isDigit_def)
  have nn: "nonDecimal (trim s) = None"
  proof (cases "trim s")
    case Nil
    then show ?thesis by (simp add: nonDecimal_def)
  next
    case (Cons z r)
    with z0 have "z \<noteq> CHR ''0''" by simp
    with Cons show ?thesis by (cases r) (simp_all add: nonDecimal_def)
  qed
  show ?thesis
    using ne ni by (simp add: coerce_def segToNumber_def Let_def tw nn)
qed

lemma coerce_digits_round:
  assumes "d \<noteq> []" "list_all isDigit d"
  shows "coerce d = SNum (roundDouble (digitsVal 10 d))"
proof -
  have t: "trim d = d" using assms by (simp add: trim_digits)
  have tw: "takeWhile isDigit d = d" using assms(2) by (simp add: list_all_iff)
  have dw: "dropWhile isDigit d = []" using assms(2) by (simp add: list_all_iff)
  have ninf: "d \<noteq> ''Infinity''" using assms(2) by (auto simp: isDigit_def)
  show ?thesis
    using assms(1) ninf
    by (simp add: coerce_def segToNumber_def t tw dw Let_def)
qed

lemma coerce_exponent:
  assumes m: "m \<noteq> []" "list_all isDigit m" and k: "k \<noteq> []" "list_all isDigit k"
    and c: "c = CHR ''e'' \<or> c = CHR ''E''"
  shows "coerce (m @ c # k) = SNum (roundDouble (digitsVal 10 m * 10 ^ digitsVal 10 k))"
proof -
  have cd: "\<not> isDigit c" using c by (auto simp: isDigit_def)
  have h: "\<not> isWhitespace (hd (m @ c # k))"
    using m by (cases m) (auto simp: isDigit_not_ws)
  have "last (m @ c # k) = last k" using k(1) by simp
  moreover have "isDigit (last k)" using k by (simp add: list_all_iff)
  ultimately have l: "\<not> isWhitespace (last (m @ c # k))" by (simp add: isDigit_not_ws)
  have t: "trim (m @ c # k) = m @ c # k"
    by (rule trim_id [OF _ h l]) simp
  have tw: "takeWhile isDigit (m @ c # k) = m"
    using m(2) cd by (simp add: list_all_iff takeWhile_tail)
  have dw: "dropWhile isDigit (m @ c # k) = c # k"
    using m(2) cd by (simp add: list_all_iff dropWhile_append3)
  have ninf: "m @ c # k \<noteq> ''Infinity''"
    using m by (cases m) (auto simp: isDigit_def)
  show ?thesis
    using m(1) k c ninf
    by (auto simp: coerce_def segToNumber_def t tw dw Let_def)
qed

lemma coerce_radix:
  assumes ds: "ds \<noteq> []" "list_all (isDigitOf b) ds"
    and p: "(b = 16 \<and> (p = CHR ''x'' \<or> p = CHR ''X''))
        \<or> (b = 8 \<and> (p = CHR ''o'' \<or> p = CHR ''O''))
        \<or> (b = 2 \<and> (p = CHR ''b'' \<or> p = CHR ''B''))"
  shows "coerce (CHR ''0'' # p # ds) = SNum (roundDouble (digitsVal b ds))"
proof -
  let ?t = "CHR ''0'' # p # ds"
  have pd: "\<not> isDigit p" using p by (auto simp: isDigit_def)
  have h: "\<not> isWhitespace (hd ?t)" by (simp add: isWhitespace_def)
  have "last ?t = last ds" using ds(1) by simp
  moreover have "isDigitOf b (last ds)" using ds by (simp add: list_all_iff)
  ultimately have l: "\<not> isWhitespace (last ?t)" by (simp add: isDigitOf_not_ws)
  have t: "trim ?t = ?t" by (rule trim_id [OF _ h l]) simp
  have z: "isDigit CHR ''0''" by (simp add: isDigit_def)
  have tw: "takeWhile isDigit ?t = ''0''" using pd z by simp
  have dw: "dropWhile isDigit ?t = p # ds" using pd z by simp
  have nd: "nonDecimal ?t = Some (roundDouble (digitsVal b ds))"
    using ds p by (auto simp: nonDecimal_def)
  have ninf: "?t \<noteq> ''Infinity''" by simp
  have pe: "p \<noteq> CHR ''e''" "p \<noteq> CHR ''E''" using p by auto
  show ?thesis
    unfolding coerce_def segToNumber_def t Let_def tw dw nd
    using pe by simp
qed


lemma hd_trim:
  assumes ne: "g \<noteq> []" and h: "\<not> isWhitespace (hd g)"
  shows "trim g \<noteq> [] \<and> hd (trim g) = hd g"
proof -
  from h ne have 1: "dropWhile isWhitespace g = g" by (cases g) auto
  from ne have r: "rev g = rev (tl g) @ [hd g]" by (cases g) simp_all
  have "\<exists>zs. dropWhile isWhitespace (rev (tl g) @ [hd g]) = zs @ [hd g]"
    using h by (simp add: dropWhile_append)
  then obtain zs where zs: "dropWhile isWhitespace (rev g) = zs @ [hd g]"
    unfolding r by blast
  show ?thesis by (simp add: trim_def 1 zs)
qed

lemma coerce_text_hd:
  assumes ne: "g \<noteq> []" and h: "hd g \<notin> set ''0123456789I''"
    and w: "(of_char (hd g) :: nat) \<notin> {9, 10, 11, 12, 13, 32, 160}"
  shows "coerce g = SStr g"
proof -
  from w have nw: "\<not> isWhitespace (hd g)" by (simp add: isWhitespace_def)
  from hd_trim [OF ne nw] have t: "trim g \<noteq> []" "hd (trim g) = hd g" by simp_all
  from h have nd: "\<not> isDigit (hd (trim g))" unfolding t(2) isDigit_iff by simp
  from h t have ni: "trim g \<noteq> ''Infinity''" by (cases "trim g") auto
  from coerce_text [OF t(1) ni nd] show ?thesis .
qed

lemma digits_all: "set d \<subseteq> set ''0123456789'' \<Longrightarrow> list_all isDigit d"
  unfolding list_all_iff isDigit_iff by blast

lemma hex_all: "set d \<subseteq> set ''0123456789abcdefABCDEF'' \<Longrightarrow> list_all (isDigitOf 16) d"
  unfolding list_all_iff using isDigitOf16_if by blast

lemma oct_all: "set d \<subseteq> set ''01234567'' \<Longrightarrow> list_all (isDigitOf 8) d"
  unfolding list_all_iff using isDigitOf8_if by blast

lemma bin_all: "set d \<subseteq> set ''01'' \<Longrightarrow> list_all (isDigitOf 2) d"
  unfolding list_all_iff using isDigitOf2_if by blast

lemma blank_all:
  "\<forall>c \<in> set w. (of_char c :: nat) \<in> {9, 10, 11, 12, 13, 32, 160} \<Longrightarrow> list_all isWhitespace w"
  unfolding list_all_iff isWhitespace_def by blast

lemma digitVal_table:
  "map digitVal ''0123456789abcdefABCDEF''
     = [0, 1, 2, 3, 4, 5, 6, 7, 8, 9, 10, 11, 12, 13, 14, 15, 10, 11, 12, 13, 14, 15]"
  by (simp add: digitVal_def)

lemma digitsVal_Nil: "digitsVal b [] = 0"
  by (simp add: digitsVal_def)

lemma digitsVal_snoc: "digitsVal b (ds @ [c]) = b * digitsVal b ds + digitVal c"
  by (simp add: digitsVal_def)

lemma coerce_of_digits:
  assumes "list_all isDigit d" "d \<noteq> []" "digitsVal 10 d = n" "roundDouble n = r"
  shows "coerce d = SNum r"
  using coerce_digits_round [OF assms(2,1)] assms(3,4) by simp

lemma round_2p53_1: "roundDouble 9007199254740993 = enat 9007199254740992"
  by (simp add: roundDouble_def bitlen.simps Let_def)

lemma round_2p53_3: "roundDouble 9007199254740995 = enat 9007199254740996"
  by (simp add: roundDouble_def bitlen.simps Let_def)

lemma round_2p54_1: "roundDouble 18014398509481985 = enat 18014398509481984"
  by (simp add: roundDouble_def bitlen.simps Let_def)

lemma round_2p54_3: "roundDouble 18014398509481987 = enat 18014398509481988"
  by (simp add: roundDouble_def bitlen.simps Let_def)

lemma coerce_2p53_1: "coerce ''9007199254740993'' = SNum 9007199254740992"
  by (rule coerce_of_digits [where n = 9007199254740993])
    (simp_all add: isDigit_def digitsVal_def digitVal_def round_2p53_1 numeral_eq_enat)

lemma coerce_2p53_3: "coerce ''9007199254740995'' = SNum 9007199254740996"
  by (rule coerce_of_digits [where n = 9007199254740995])
    (simp_all add: isDigit_def digitsVal_def digitVal_def round_2p53_3 numeral_eq_enat)

lemma coerce_2p54_1: "coerce ''18014398509481985'' = SNum 18014398509481984"
  by (rule coerce_of_digits [where n = 18014398509481985])
    (simp_all add: isDigit_def digitsVal_def digitVal_def round_2p54_1 numeral_eq_enat)

lemma coerce_2p54_3: "coerce ''18014398509481987'' = SNum 18014398509481988"
  by (rule coerce_of_digits [where n = 18014398509481987])
    (simp_all add: isDigit_def digitsVal_def digitVal_def round_2p54_3 numeral_eq_enat)

lemma bitlen_upper: "n < 2 ^ bitlen n"
proof (induction n rule: bitlen.induct)
  case (1 n)
  show ?case
  proof (cases "n = 0")
    case True
    then show ?thesis by simp
  next
    case False
    with 1 have "n div 2 < 2 ^ bitlen (n div 2)" by simp
    then have "n < 2 * 2 ^ bitlen (n div 2)" by arith
    with False show ?thesis by (subst bitlen.simps) simp
  qed
qed

lemma bitlen_lower: "n \<noteq> 0 \<Longrightarrow> 2 ^ (bitlen n - 1) \<le> n"
proof (induction n rule: bitlen.induct)
  case (1 n)
  show ?case
  proof (cases "n div 2 = 0")
    case True
    with 1(2) have "n = 1" by arith
    then show ?thesis by (simp add: bitlen.simps)
  next
    case False
    with 1 have ih: "2 ^ (bitlen (n div 2) - 1) \<le> n div 2" by simp
    from False have "bitlen (n div 2) \<noteq> 0" by (subst bitlen.simps) simp
    then have "bitlen n - 1 = Suc (bitlen (n div 2) - 1)"
      using 1(2) by (subst bitlen.simps) simp
    with ih show ?thesis by simp
  qed
qed

lemma gap53:
  assumes m: "m < (2::nat) ^ 53" and q: "2 ^ 52 \<le> (q::nat)"
    and lo: "q * 2 ^ e < m * 2 ^ j" and hi: "m * 2 ^ j < (q + 1) * 2 ^ e"
  shows False
proof (cases "e \<le> j")
  case True
  then obtain d where j: "j = e + d" by (auto simp: le_iff_add)
  from lo have "q * 2 ^ e < (m * 2 ^ d) * 2 ^ e" by (simp add: j power_add mult_ac)
  then have 1: "q < m * 2 ^ d" by simp
  from hi have "(m * 2 ^ d) * 2 ^ e < (q + 1) * 2 ^ e" by (simp add: j power_add mult_ac)
  then have 2: "m * 2 ^ d < q + 1" by (simp only: mult_less_cancel2)
  from 1 2 show False by simp
next
  case False
  then obtain d where e: "e = j + Suc d" by (metis add_Suc_right less_iff_Suc_add not_le)
  from lo have "(q * 2 ^ Suc d) * 2 ^ j < m * 2 ^ j" by (simp add: e power_add mult_ac)
  then have "q * 2 ^ Suc d < m" by simp
  moreover have "2 ^ 52 * 2 ^ Suc d \<le> q * 2 ^ Suc d" using q by simp
  moreover have "(2::nat) ^ 53 \<le> 2 ^ 52 * 2 ^ Suc d" by simp
  ultimately show False using m by linarith
qed


lemma roundDouble_nearest:
  assumes r: "roundDouble n = enat r" and f: "fits53 r'"
  shows "fits53 r \<and> r < 2 ^ 1024 \<and> \<bar>int r - int n\<bar> \<le> \<bar>int r' - int n\<bar>"
proof (cases "bitlen n \<le> 53")
  case True
  with r have rn: "r = n" by (simp add: roundDouble_def)
  from True have "(2::nat) ^ bitlen n \<le> 2 ^ 53" by (intro power_increasing) simp_all
  with bitlen_upper [of n] have n53: "n < 2 ^ 53" by (rule less_le_trans)
  have "n < 2 ^ 53 \<and> n = n * 2 ^ 0" using n53 by simp
  then have "fits53 n" unfolding fits53_def by blast
  moreover have "n < 2 ^ 1024" by (rule less_le_trans [OF n53]) simp
  ultimately show ?thesis using rn by simp
next
  case False
  define e where "e = bitlen n - 53"
  define q where "q = n div 2 ^ e"
  define rm where "rm = n mod 2 ^ e"
  define h :: nat where "h = 2 ^ (e - 1)"
  define q' where "q' = (if h < rm \<or> (rm = h \<and> odd q) then q + 1 else q)"
  define lo where "lo = q * 2 ^ e"
  from False have e1: "1 \<le> e" and k: "bitlen n = e + 53" by (simp_all add: e_def)
  have p2: "(2::nat) ^ e = 2 * h" using e1 by (cases e) (simp_all add: h_def)
  have n: "n = lo + rm" unfolding lo_def q_def rm_def by (rule div_mult_mod_eq [symmetric])
  have rm: "rm < 2 * h" unfolding p2 [symmetric] rm_def by simp
  have n0: "n \<noteq> 0"
  proof
    assume "n = 0"
    then have "bitlen n = 0" by (simp add: bitlen.simps)
    with False show False by simp
  qed
  have km: "bitlen n - 1 = 52 + e" by (simp add: k)
  from bitlen_lower [OF n0] have "2 ^ 52 * 2 ^ e \<le> n" unfolding km power_add .
  then have "(2 ^ 52 * 2 ^ e) div 2 ^ e \<le> n div 2 ^ e" by (rule div_le_mono)
  then have qlo: "2 ^ 52 \<le> q" by (simp add: q_def)
  from bitlen_upper [of n] have "n < 2 ^ 53 * 2 ^ e" by (simp add: k power_add mult.commute)
  then have qhi: "q < 2 ^ 53" unfolding q_def
    by (simp add: less_mult_imp_div_less)
  have rd: "roundDouble n = (if 2 ^ 1024 \<le> q' * 2 ^ e then \<infinity> else enat (q' * 2 ^ e))"
    using False by (simp add: roundDouble_def Let_def e_def q_def rm_def h_def q'_def)
  with r have rv: "r = q' * 2 ^ e" and fin: "r < 2 ^ 1024"
    by (auto split: if_splits)
  have fr: "fits53 r"
  proof (cases "q' < 2 ^ 53")
    case True
    then show ?thesis unfolding fits53_def rv by blast
  next
    case False
    with qhi have "q' = 2 ^ 53" by (simp add: q'_def split: if_splits)
    then have "r = 2 ^ 52 * 2 ^ Suc e" by (simp add: rv)
    moreover have "(2::nat) ^ 52 < 2 ^ 53" by simp
    ultimately show ?thesis unfolding fits53_def by blast
  qed
  from f obtain m' j where m': "m' < 2 ^ 53" "r' = m' * 2 ^ j" unfolding fits53_def by blast
  have "\<not> (q * 2 ^ e < m' * 2 ^ j \<and> m' * 2 ^ j < (q + 1) * 2 ^ e)"
    using gap53 [OF m'(1) qlo] by blast
  then have out: "r' \<le> lo \<or> lo + 2 * h \<le> r'"
    by (simp add: m'(2) lo_def p2 [symmetric] add_mult_distrib not_less add.commute)
  have rcase: "(r = lo \<and> rm \<le> h) \<or> (r = lo + 2 * h \<and> h \<le> rm)"
    by (auto simp: rv q'_def lo_def p2 [symmetric] add_mult_distrib)
  from out rcase n rm have "\<bar>int r - int n\<bar> \<le> \<bar>int r' - int n\<bar>" by auto
  with fr fin show ?thesis by simp
qed

lemma roundDouble_overflow:
  assumes big: "2 ^ 1024 \<le> n"
  shows "roundDouble n = \<infinity>"
proof -
  define e where "e = bitlen n - 53"
  define q where "q = n div 2 ^ e"
  define rm where "rm = n mod 2 ^ e"
  define h :: nat where "h = 2 ^ (e - 1)"
  define q' where "q' = (if h < rm \<or> (rm = h \<and> odd q) then q + 1 else q)"
  from big bitlen_upper [of n] have lt: "(2::nat) ^ 1024 < 2 ^ bitlen n" by (rule le_less_trans)
  have one2: "(1::nat) < 2" by simp
  from power_less_imp_less_exp [OF one2 lt] have kb: "1024 < bitlen n" .
  then have k: "bitlen n = e + 53" and nk: "\<not> bitlen n \<le> 53" by (simp_all add: e_def)
  from kb have e: "971 < e" by (simp add: e_def)
  from big have n0: "n \<noteq> 0" by auto
  have km: "bitlen n - 1 = 52 + e" by (simp add: k)
  from bitlen_lower [OF n0] have "2 ^ 52 * 2 ^ e \<le> n" unfolding km power_add .
  then have "(2 ^ 52 * 2 ^ e) div 2 ^ e \<le> n div 2 ^ e" by (rule div_le_mono)
  then have qlo: "2 ^ 52 \<le> q" by (simp add: q_def)
  have "q \<le> q'" by (simp add: q'_def)
  with qlo have "2 ^ 52 \<le> q'" by simp
  then have a: "2 ^ 52 * 2 ^ e \<le> q' * 2 ^ e" by (rule mult_le_mono1)
  have b: "(2::nat) ^ 1024 \<le> 2 ^ (52 + e)" using e by (intro power_increasing) simp_all
  have c: "(2::nat) ^ (52 + e) = 2 ^ 52 * 2 ^ e" by (rule power_add)
  from b a have big': "2 ^ 1024 \<le> q' * 2 ^ e" unfolding c by (rule order_trans)
  have rd: "roundDouble n = (if 2 ^ 1024 \<le> q' * 2 ^ e then \<infinity> else enat (q' * 2 ^ e))"
    using nk by (simp add: roundDouble_def Let_def e_def q_def rm_def h_def q'_def)
  show ?thesis unfolding rd using big' by (simp only: if_True)
qed

lemma ex1: "semverCompare ''1.2.0'' ''1.10.0'' = - 1" by code_simp
lemma ex2: "semverCompare ''1.0'' ''1.0.0'' = - 1" by code_simp
lemma ex3: "semverCompare ''1.0.beta'' ''1.0.0'' = - 1" by code_simp
lemma ex4: "semverCompare ''1.0.0'' ''1.0.beta'' = 1" by code_simp
lemma ex5: "semverCompare ''1.a'' ''1.b'' = - 1" by code_simp
lemma ex6: "semverCompare ''1.0x10'' ''1.16'' = 0" by code_simp
lemma ex7: "semverCompare ''1.0+build'' ''1.0-rc'' = - 1" by code_simp
lemma ex8: "semverCompare ''1..2'' ''1.0.2'' = 0" by code_simp
lemma ex9: "semverCompare ''2.0'' ''10.0'' = - 1" by code_simp
lemma ex10: "semverCompare ''1.1e3'' ''1.1000'' = 0" by code_simp
lemma ex11: "coerce ''1a'' = SStr ''1a''" by code_simp
lemma ex12: "coerce ''0x'' = SStr ''0x''" by code_simp
lemma ex13: "coerce ''1e'' = SStr ''1e''" by code_simp
lemma ex14: "coerce ''0b102'' = SStr ''0b102''" by code_simp
lemma ex15: "coerce ''infinity'' = SStr ''infinity''" by code_simp
lemma ex16: "coerce '' 7 '' = SNum 7" by code_simp
lemma ex17: "coerce ''Infinity'' = SNum \<infinity>" by code_simp
lemma ex18: "coerce ''0o17'' = SNum 15" by code_simp
lemma ex19: "coerce ''0B101'' = SNum 5" by code_simp
lemma ex20: "coerce ''0Xff'' = SNum 255" by code_simp
lemma ex21: "coerce ''010'' = SNum 10" by code_simp

lemma splitSep_plain: "\<forall>c \<in> set g. \<not> isSep c \<Longrightarrow> splitSep g = [g]"
  by (induction g) simp_all

lemma splitSep_cut:
  "\<forall>c \<in> set g. \<not> isSep c \<Longrightarrow> isSep sp \<Longrightarrow> splitSep (g @ sp # rest) = g # splitSep rest"
  by (induction g) simp_all

lemma ex22: "semverCompare ''1.9007199254740993'' ''1.9007199254740992'' = 0"
proof -
  have d1: "\<forall>c \<in> set ''9007199254740993''. \<not> isSep c" by (simp add: isSep_def)
  have d2: "\<forall>c \<in> set ''9007199254740992''. \<not> isSep c" by (simp add: isSep_def)
  have "splitSep (''1'' @ CHR ''.'' # ''9007199254740993'') = ''1'' # splitSep ''9007199254740993''"
    by (rule splitSep_cut) (simp_all add: isSep_def)
  then have s1: "splitSep ''1.9007199254740993'' = [''1'', ''9007199254740993'']"
    by (simp only: splitSep_plain [OF d1] append_Cons append_Nil)
  have "splitSep (''1'' @ CHR ''.'' # ''9007199254740992'') = ''1'' # splitSep ''9007199254740992''"
    by (rule splitSep_cut) (simp_all add: isSep_def)
  then have s2: "splitSep ''1.9007199254740992'' = [''1'', ''9007199254740992'']"
    by (simp only: splitSep_plain [OF d2] append_Cons append_Nil)
  have c1: "coerce ''1'' = SNum 1" by code_simp
  have c2: "coerce ''9007199254740992'' = SNum 9007199254740992"
    by (rule coerce_of_digits [where n = 9007199254740992])
      (simp_all add: isDigit_def digitsVal_def digitVal_def roundDouble_def bitlen.simps Let_def
        numeral_eq_enat)
  show ?thesis
    unfolding semverCompare_def seg_def s1 s2 by (simp add: c1 c2 coerce_2p53_1)
qed

lemma coerce_1e400: "coerce ''1e400'' = SNum \<infinity>"
proof -
  have "coerce (''1'' @ CHR ''e'' # ''400'')
      = SNum (roundDouble (digitsVal 10 ''1'' * 10 ^ digitsVal 10 ''400''))"
    by (rule coerce_exponent) (simp_all add: isDigit_def)
  moreover have "digitsVal 10 ''1'' = 1" "digitsVal 10 ''400'' = 400"
    by (simp_all add: digitsVal_def digitVal_def)
  moreover have "roundDouble (1 * 10 ^ 400) = \<infinity>"
    by (rule roundDouble_overflow) simp
  ultimately show ?thesis by (simp only: append_Cons append_Nil)
qed

text \<open>
  C7.  The comparator cuts both strings at every \<^verbatim>\<open>.\<close>, \<^verbatim>\<open>+\<close> and \<^verbatim>\<open>-\<close>: the segments, joined
  by the separators that were found, give the string back, there is one segment more than
  there are separators, and no segment holds a separator.

  A segment that looks like a number becomes that number.  The value of a digit string is
  positional.  A segment of decimal digits becomes its value, exactly when that is below
  \<open>2\<^sup>5\<^sup>3\<close> and otherwise rounded to a double: the result fits 53 bits, no number that fits
  53 bits is nearer to the value, a tie goes to the even significand (the four numbers
  around \<open>2\<^sup>5\<^sup>3\<close> and \<open>2\<^sup>5\<^sup>4\<close>), and from \<open>2\<^sup>1\<^sup>0\<^sup>2\<^sup>4\<close> on it is infinity.  Hexadecimal,
  octal and binary literals and digits with an exponent become their value; \<^verbatim>\<open>Infinity\<close> is
  infinity; an empty or blank segment is 0, and blanks around a number are dropped.

  Every other segment stays text: in particular every segment that starts with a
  character other than a digit, a blank or \<^verbatim>\<open>I\<close>, and a number followed by anything else.

  The segments are compared in order, after any common prefix \<open>p\<close>: a missing segment is
  lowest, two numbers and two strings compare by their own order, a number is greater
  than a string, and equal segments pass the decision on.  In particular \<^verbatim>\<open>1.2.0\<close> is below
  \<^verbatim>\<open>1.10.0\<close> and \<^verbatim>\<open>1.0\<close> is below \<^verbatim>\<open>1.0.0\<close>.
\<close>

theorem semverCompare_segmentwise:
  "semverCompare a b = cmpSegs (map coerce (splitSep a)) (map coerce (splitSep b))
   \<and> joinSep (filter isSep a) (splitSep a) = a
   \<and> length (splitSep a) = Suc (length (filter isSep a))
   \<and> (\<forall>g \<in> set (splitSep a). \<forall>c \<in> set g. c \<noteq> CHR ''.'' \<and> c \<noteq> CHR ''+'' \<and> c \<noteq> CHR ''-'')
   \<and> digitsVal bs [] = 0
   \<and> digitsVal bs (ds @ [c]) = bs * digitsVal bs ds + digitVal c
   \<and> map digitVal ''0123456789abcdefABCDEF''
        = [0, 1, 2, 3, 4, 5, 6, 7, 8, 9, 10, 11, 12, 13, 14, 15, 10, 11, 12, 13, 14, 15]
   \<and> (d \<noteq> [] \<and> set d \<subseteq> set ''0123456789'' \<and> digitsVal 10 d < 2 ^ 53
        \<longrightarrow> coerce d = SNum (enat (digitsVal 10 d)))
   \<and> (d \<noteq> [] \<and> set d \<subseteq> set ''0123456789'' \<and> fits53 r'
        \<longrightarrow> coerce d = SNum \<infinity>
          \<or> (\<exists>r. coerce d = SNum (enat r) \<and> fits53 r \<and> r < 2 ^ 1024
                \<and> \<bar>int r - int (digitsVal 10 d)\<bar> \<le> \<bar>int r' - int (digitsVal 10 d)\<bar>))
   \<and> (d \<noteq> [] \<and> set d \<subseteq> set ''0123456789'' \<and> 2 ^ 1024 \<le> digitsVal 10 d
        \<longrightarrow> coerce d = SNum \<infinity>)
   \<and> coerce ''9007199254740993'' = SNum 9007199254740992
   \<and> coerce ''9007199254740995'' = SNum 9007199254740996
   \<and> coerce ''18014398509481985'' = SNum 18014398509481984
   \<and> coerce ''18014398509481987'' = SNum 18014398509481988
   \<and> (hx \<noteq> [] \<and> set hx \<subseteq> set ''0123456789abcdefABCDEF'' \<and> digitsVal 16 hx < 2 ^ 53
        \<longrightarrow> coerce (''0x'' @ hx) = SNum (enat (digitsVal 16 hx))
          \<and> coerce (''0X'' @ hx) = SNum (enat (digitsVal 16 hx)))
   \<and> (oc \<noteq> [] \<and> set oc \<subseteq> set ''01234567'' \<and> digitsVal 8 oc < 2 ^ 53
        \<longrightarrow> coerce (''0o'' @ oc) = SNum (enat (digitsVal 8 oc))
          \<and> coerce (''0O'' @ oc) = SNum (enat (digitsVal 8 oc)))
   \<and> (bn \<noteq> [] \<and> set bn \<subseteq> set ''01'' \<and> digitsVal 2 bn < 2 ^ 53
        \<longrightarrow> coerce (''0b'' @ bn) = SNum (enat (digitsVal 2 bn))
          \<and> coerce (''0B'' @ bn) = SNum (enat (digitsVal 2 bn)))
   \<and> (d \<noteq> [] \<and> set d \<subseteq> set ''0123456789'' \<and> k \<noteq> [] \<and> set k \<subseteq> set ''0123456789''
        \<and> digitsVal 10 d * 10 ^ digitsVal 10 k < 2 ^ 53
        \<longrightarrow> coerce (d @ ''e'' @ k) = SNum (enat (digitsVal 10 d * 10 ^ digitsVal 10 k))
          \<and> coerce (d @ ''E'' @ k) = SNum (enat (digitsVal 10 d * 10 ^ digitsVal 10 k)))
   \<and> coerce ''1e400'' = SNum \<infinity>
   \<and> coerce ''Infinity'' = SNum \<infinity>
   \<and> ((\<forall>c \<in> set w. (of_char c :: nat) \<in> {9, 10, 11, 12, 13, 32, 160}) \<longrightarrow> coerce w = SNum 0)
   \<and> coerce '' 7 '' = SNum 7
   \<and> (g \<noteq> [] \<and> hd g \<notin> set ''0123456789I''
        \<and> (of_char (hd g) :: nat) \<notin> {9, 10, 11, 12, 13, 32, 160}
        \<and> (\<forall>c \<in> set g. c \<noteq> CHR ''.'' \<and> c \<noteq> CHR ''+'' \<and> c \<noteq> CHR ''-'')
        \<longrightarrow> coerce g = SStr g)
   \<and> coerce ''1a'' = SStr ''1a''
   \<and> coerce ''0x'' = SStr ''0x''
   \<and> coerce ''1e'' = SStr ''1e''
   \<and> coerce ''0b102'' = SStr ''0b102''
   \<and> coerce ''infinity'' = SStr ''infinity''
   \<and> cmpSegs p (p @ y # rest) = - 1
   \<and> cmpSegs (p @ y # rest) p = 1
   \<and> (u < v \<longrightarrow> cmpSegs (p @ SNum u # rest) (p @ SNum v # rest') = - 1
                \<and> cmpSegs (p @ SNum v # rest) (p @ SNum u # rest') = 1)
   \<and> (s < t \<longrightarrow> cmpSegs (p @ SStr s # rest) (p @ SStr t # rest') = - 1
                \<and> cmpSegs (p @ SStr t # rest) (p @ SStr s # rest') = 1)
   \<and> cmpSegs (p @ SNum u # rest) (p @ SStr t # rest') = 1
   \<and> cmpSegs (p @ SStr t # rest) (p @ SNum u # rest') = - 1
   \<and> cmpSegs (p @ x # rest) (p @ x # rest') = cmpSegs rest rest'
   \<and> semverCompare ''1.2.0'' ''1.10.0'' < 0
   \<and> semverCompare ''1.0'' ''1.0.0'' < 0
   \<and> semverCompare ''2.0'' ''10.0'' = - 1
   \<and> semverCompare ''1.0.beta'' ''1.0.0'' = - 1
   \<and> semverCompare ''1.0.0'' ''1.0.beta'' = 1
   \<and> semverCompare ''1.a'' ''1.b'' = - 1
   \<and> semverCompare ''1.0+build'' ''1.0-rc'' = - 1
   \<and> semverCompare ''1.0x10'' ''1.16'' = 0
   \<and> semverCompare ''1.1e3'' ''1.1000'' = 0
   \<and> semverCompare ''1..2'' ''1.0.2'' = 0
   \<and> semverCompare ''1.9007199254740993'' ''1.9007199254740992'' = 0"
proof -
  have c1: "semverCompare a b = cmpSegs (map coerce (splitSep a)) (map coerce (splitSep b))"
    by (simp add: semverCompare_def seg_def)
  have c2: "joinSep (filter isSep a) (splitSep a) = a"
    by (rule splitSep_join)
  have c2b: "length (splitSep a) = Suc (length (filter isSep a))"
    by (rule splitSep_length)
  have c3: "\<forall>g \<in> set (splitSep a). \<forall>c \<in> set g. c \<noteq> CHR ''.'' \<and> c \<noteq> CHR ''+'' \<and> c \<noteq> CHR ''-''"
    using splitSep_no_sep [of _ a] by (auto simp: isSep_def)
  have n0: "digitsVal bs [] = 0" by (rule digitsVal_Nil)
  have n1: "digitsVal bs (ds @ [c]) = bs * digitsVal bs ds + digitVal c" by (rule digitsVal_snoc)
  note n2 = digitVal_table
  have c4: "d \<noteq> [] \<and> set d \<subseteq> set ''0123456789'' \<and> digitsVal 10 d < 2 ^ 53
        \<longrightarrow> coerce d = SNum (enat (digitsVal 10 d))"
    using coerce_digits [of d] digits_all [of d] by blast
  have c4b: "d \<noteq> [] \<and> set d \<subseteq> set ''0123456789'' \<and> fits53 r'
        \<longrightarrow> coerce d = SNum \<infinity>
          \<or> (\<exists>r. coerce d = SNum (enat r) \<and> fits53 r \<and> r < 2 ^ 1024
                \<and> \<bar>int r - int (digitsVal 10 d)\<bar> \<le> \<bar>int r' - int (digitsVal 10 d)\<bar>)"
  proof
    assume h: "d \<noteq> [] \<and> set d \<subseteq> set ''0123456789'' \<and> fits53 r'"
    then have cd: "coerce d = SNum (roundDouble (digitsVal 10 d))"
      using coerce_digits_round [of d] digits_all [of d] by blast
    show "coerce d = SNum \<infinity>
          \<or> (\<exists>r. coerce d = SNum (enat r) \<and> fits53 r \<and> r < 2 ^ 1024
                \<and> \<bar>int r - int (digitsVal 10 d)\<bar> \<le> \<bar>int r' - int (digitsVal 10 d)\<bar>)"
    proof (cases "roundDouble (digitsVal 10 d)")
      case (enat r)
      from roundDouble_nearest [OF enat, of r'] h cd enat show ?thesis by auto
    next
      case infinity
      with cd show ?thesis by simp
    qed
  qed
  have c4c: "d \<noteq> [] \<and> set d \<subseteq> set ''0123456789'' \<and> 2 ^ 1024 \<le> digitsVal 10 d
        \<longrightarrow> coerce d = SNum \<infinity>"
    using coerce_digits_round [of d] digits_all [of d] roundDouble_overflow [of "digitsVal 10 d"]
    by auto
  note r1 = coerce_2p53_1 and r2 = coerce_2p53_3 and r3 = coerce_2p54_1 and r4 = coerce_2p54_3
  have radix: "coerce (CHR ''0'' # pc # xs) = SNum (enat (digitsVal bb xs))"
    if "xs \<noteq> []" "list_all (isDigitOf bb) xs" "digitsVal bb xs < 2 ^ 53"
      "(bb = 16 \<and> (pc = CHR ''x'' \<or> pc = CHR ''X''))
        \<or> (bb = 8 \<and> (pc = CHR ''o'' \<or> pc = CHR ''O''))
        \<or> (bb = 2 \<and> (pc = CHR ''b'' \<or> pc = CHR ''B''))" for pc xs bb
    using coerce_radix [OF that(1,2,4)] roundDouble_exact [OF that(3)] by simp
  have c5: "hx \<noteq> [] \<and> set hx \<subseteq> set ''0123456789abcdefABCDEF'' \<and> digitsVal 16 hx < 2 ^ 53
        \<longrightarrow> coerce (''0x'' @ hx) = SNum (enat (digitsVal 16 hx))
          \<and> coerce (''0X'' @ hx) = SNum (enat (digitsVal 16 hx))"
    using radix [of hx 16 "CHR ''x''"] radix [of hx 16 "CHR ''X''"] hex_all [of hx] by simp
  have c6: "oc \<noteq> [] \<and> set oc \<subseteq> set ''01234567'' \<and> digitsVal 8 oc < 2 ^ 53
        \<longrightarrow> coerce (''0o'' @ oc) = SNum (enat (digitsVal 8 oc))
          \<and> coerce (''0O'' @ oc) = SNum (enat (digitsVal 8 oc))"
    using radix [of oc 8 "CHR ''o''"] radix [of oc 8 "CHR ''O''"] oct_all [of oc] by simp
  have c7: "bn \<noteq> [] \<and> set bn \<subseteq> set ''01'' \<and> digitsVal 2 bn < 2 ^ 53
        \<longrightarrow> coerce (''0b'' @ bn) = SNum (enat (digitsVal 2 bn))
          \<and> coerce (''0B'' @ bn) = SNum (enat (digitsVal 2 bn))"
    using radix [of bn 2 "CHR ''b''"] radix [of bn 2 "CHR ''B''"] bin_all [of bn] by simp
  have c8: "d \<noteq> [] \<and> set d \<subseteq> set ''0123456789'' \<and> k \<noteq> [] \<and> set k \<subseteq> set ''0123456789''
        \<and> digitsVal 10 d * 10 ^ digitsVal 10 k < 2 ^ 53
        \<longrightarrow> coerce (d @ ''e'' @ k) = SNum (enat (digitsVal 10 d * 10 ^ digitsVal 10 k))
          \<and> coerce (d @ ''E'' @ k) = SNum (enat (digitsVal 10 d * 10 ^ digitsVal 10 k))"
    using coerce_exponent [of d k "CHR ''e''"] coerce_exponent [of d k "CHR ''E''"]
      digits_all [of d] digits_all [of k]
      roundDouble_exact [of "digitsVal 10 d * 10 ^ digitsVal 10 k"]
    by simp
  note c9 = coerce_1e400 and c10 = ex17
  have c11: "(\<forall>c \<in> set w. (of_char c :: nat) \<in> {9, 10, 11, 12, 13, 32, 160}) \<longrightarrow> coerce w = SNum 0"
    using coerce_blank [of w] blank_all [of w] by blast
  note c12 = ex16
  have c13: "g \<noteq> [] \<and> hd g \<notin> set ''0123456789I''
        \<and> (of_char (hd g) :: nat) \<notin> {9, 10, 11, 12, 13, 32, 160}
        \<and> (\<forall>c \<in> set g. c \<noteq> CHR ''.'' \<and> c \<noteq> CHR ''+'' \<and> c \<noteq> CHR ''-'')
        \<longrightarrow> coerce g = SStr g"
    using coerce_text_hd [of g] by blast
  note t1 = ex11 and t2 = ex12 and t3 = ex13 and t4 = ex14 and t5 = ex15
  have m1: "cmpSegs p (p @ y # rest) = - 1" by (rule cmpSegs_missing)
  have m2: "cmpSegs (p @ y # rest) p = 1" by (rule cmpSegs_missing_right)
  have m3: "u < v \<longrightarrow> cmpSegs (p @ SNum u # rest) (p @ SNum v # rest') = - 1
                \<and> cmpSegs (p @ SNum v # rest) (p @ SNum u # rest') = 1"
    by (auto simp: cmpSegs_common)
  have m4: "s < t \<longrightarrow> cmpSegs (p @ SStr s # rest) (p @ SStr t # rest') = - 1
                \<and> cmpSegs (p @ SStr t # rest) (p @ SStr s # rest') = 1"
    by (auto simp: cmpSegs_common)
  have m5: "cmpSegs (p @ SNum u # rest) (p @ SStr t # rest') = 1"
    by (simp add: cmpSegs_common)
  have m6: "cmpSegs (p @ SStr t # rest) (p @ SNum u # rest') = - 1"
    by (simp add: cmpSegs_common)
  have m7: "cmpSegs (p @ x # rest) (p @ x # rest') = cmpSegs rest rest'"
    unfolding cmpSegs_common by (cases x) simp_all
  have e1: "semverCompare ''1.2.0'' ''1.10.0'' < 0" unfolding ex1 by simp
  have e2: "semverCompare ''1.0'' ''1.0.0'' < 0" unfolding ex2 by simp
  show ?thesis
    by (intro conjI)
      (rule c1 c2 c2b c3 n0 n1 n2 c4 c4b c4c r1 r2 r3 r4 c5 c6 c7 c8 c9 c10 c11 c12 c13
        t1 t2 t3 t4 t5 m1 m2 m3 m4 m5 m6 m7 e1 e2 ex9 ex3 ex4 ex5 ex7 ex6 ex10 ex8 ex22)+
qed

text \<open>The value of a one followed by zeros, for a run on a number beyond the doubles.\<close>

lemma digitsVal_zeros: "digitsVal 10 (xs @ replicate n CHR ''0'') = digitsVal 10 xs * 10 ^ n"
proof (induction n)
  case 0
  show ?case by simp
next
  case (Suc n)
  have e: "xs @ replicate (Suc n) CHR ''0'' = (xs @ replicate n CHR ''0'') @ [CHR ''0'']"
    by (simp add: replicate_append_same)
  have z: "digitVal CHR ''0'' = 0" by (simp add: digitVal_def)
  show ?case unfolding e digitsVal_snoc Suc z by simp
qed

theorem semverCompare_segmentwise_witness:
  "semverCompare ''2.beta'' ''2.10'' = - 1
   \<and> coerce ''10'' = SNum 10
   \<and> (\<exists>r. coerce ''9007199254740993'' = SNum (enat r) \<and> fits53 r
         \<and> \<bar>int r - 9007199254740993\<bar> \<le> 1)
   \<and> coerce (CHR ''1'' # replicate 309 CHR ''0'') = SNum \<infinity>
   \<and> coerce ''0x1F'' = SNum 31
   \<and> coerce ''0o17'' = SNum 15
   \<and> coerce ''0b101'' = SNum 5
   \<and> coerce ''12e3'' = SNum 12000
   \<and> coerce ''  '' = SNum 0
   \<and> coerce ''beta'' = SStr ''beta''
   \<and> cmpSegs [SNum 2, SNum 3] [SNum 2, SNum 10, SNum 0] = - 1
   \<and> cmpSegs [SNum 2, SStr ''alpha'', SNum 1] [SNum 2, SStr ''beta''] = - 1"
proof -
  note T = semverCompare_segmentwise
  have sp1: "splitSep ''2.beta'' = [''2'', ''beta'']" by (simp add: isSep_def)
  have sp2: "splitSep ''2.10'' = [''2'', ''10'']" by (simp add: isSep_def)
  have h10: "''10'' \<noteq> [] \<and> set ''10'' \<subseteq> set ''0123456789'' \<and> digitsVal 10 ''10'' < 2 ^ 53"
    by (simp add: digitsVal_def digitVal_def)
  have dv10: "digitsVal 10 ''10'' = 10" by (simp add: digitsVal_def digitVal_def)
  from T [where d = "''10''", THEN conjunct2, THEN conjunct2, THEN conjunct2, THEN conjunct2, THEN conjunct2, THEN conjunct2, THEN conjunct2, THEN conjunct1] h10 have "coerce ''10'' = SNum (enat (digitsVal 10 ''10''))"
    by blast
  then have w2: "coerce ''10'' = SNum 10" by (simp add: dv10 numeral_eq_enat)
  have h2: "''2'' \<noteq> [] \<and> set ''2'' \<subseteq> set ''0123456789'' \<and> digitsVal 10 ''2'' < 2 ^ 53"
    by (simp add: digitsVal_def digitVal_def)
  from T [where d = "''2''", THEN conjunct2, THEN conjunct2, THEN conjunct2, THEN conjunct2, THEN conjunct2, THEN conjunct2, THEN conjunct2, THEN conjunct1] h2 have "coerce ''2'' = SNum (enat (digitsVal 10 ''2''))" by blast
  then have c2: "coerce ''2'' = SNum 2" by (simp add: digitsVal_def digitVal_def numeral_eq_enat)
  have hb: "''beta'' \<noteq> [] \<and> hd ''beta'' \<notin> set ''0123456789I''
      \<and> (of_char (hd ''beta'') :: nat) \<notin> {9, 10, 11, 12, 13, 32, 160}
      \<and> (\<forall>c \<in> set ''beta''. c \<noteq> CHR ''.'' \<and> c \<noteq> CHR ''+'' \<and> c \<noteq> CHR ''-'')"
    by simp
  from T [where g = "''beta''", THEN conjunct2, THEN conjunct2, THEN conjunct2, THEN conjunct2, THEN conjunct2, THEN conjunct2, THEN conjunct2, THEN conjunct2, THEN conjunct2, THEN conjunct2, THEN conjunct2, THEN conjunct2, THEN conjunct2, THEN conjunct2, THEN conjunct2, THEN conjunct2, THEN conjunct2, THEN conjunct2, THEN conjunct2, THEN conjunct2, THEN conjunct2, THEN conjunct2, THEN conjunct1] hb have w10: "coerce ''beta'' = SStr ''beta''" by blast
  from T [where a = "''2.beta''" and b = "''2.10''", THEN conjunct1]
  have "semverCompare ''2.beta'' ''2.10''
      = cmpSegs (map coerce (splitSep ''2.beta'')) (map coerce (splitSep ''2.10''))" .
  then have w1: "semverCompare ''2.beta'' ''2.10'' = - 1"
    unfolding sp1 sp2 by (simp add: c2 w2 w10)
  have f: "fits53 9007199254740994"
  proof -
    have "(4503599627370497::nat) < 2 ^ 53 \<and> (9007199254740994::nat) = 4503599627370497 * 2 ^ 1"
      by simp
    then show ?thesis unfolding fits53_def by blast
  qed
  have dvb: "digitsVal 10 ''9007199254740993'' = 9007199254740993"
    by (simp add: digitsVal_def digitVal_def)
  have hr: "''9007199254740993'' \<noteq> [] \<and> set ''9007199254740993'' \<subseteq> set ''0123456789''
      \<and> fits53 9007199254740994"
    using f by simp
  from T [where d = "''9007199254740993''" and r' = 9007199254740994, THEN conjunct2, THEN conjunct2, THEN conjunct2, THEN conjunct2, THEN conjunct2, THEN conjunct2, THEN conjunct2, THEN conjunct2, THEN conjunct1] hr
  have "coerce ''9007199254740993'' = SNum \<infinity>
      \<or> (\<exists>r. coerce ''9007199254740993'' = SNum (enat r) \<and> fits53 r \<and> r < 2 ^ 1024
            \<and> \<bar>int r - int (digitsVal 10 ''9007199254740993'')\<bar>
                \<le> \<bar>int 9007199254740994 - int (digitsVal 10 ''9007199254740993'')\<bar>)"
    by blast
  moreover from T [THEN conjunct2, THEN conjunct2, THEN conjunct2, THEN conjunct2, THEN conjunct2, THEN conjunct2, THEN conjunct2, THEN conjunct2, THEN conjunct2, THEN conjunct2, THEN conjunct1] have "coerce ''9007199254740993'' = SNum 9007199254740992" .
  then have "coerce ''9007199254740993'' \<noteq> SNum \<infinity>" by (simp add: numeral_eq_enat)
  ultimately have w3: "\<exists>r. coerce ''9007199254740993'' = SNum (enat r) \<and> fits53 r
         \<and> \<bar>int r - 9007199254740993\<bar> \<le> 1"
    unfolding dvb by auto
  have dz: "digitsVal 10 (CHR ''1'' # replicate 309 CHR ''0'') = 10 ^ 309"
    using digitsVal_zeros [of "''1''" 309] by (simp add: digitsVal_def digitVal_def)
  have hz: "CHR ''1'' # replicate 309 CHR ''0'' \<noteq> []
      \<and> set (CHR ''1'' # replicate 309 CHR ''0'') \<subseteq> set ''0123456789''
      \<and> 2 ^ 1024 \<le> digitsVal 10 (CHR ''1'' # replicate 309 CHR ''0'')"
    unfolding dz by simp
  from T [where d = "CHR ''1'' # replicate 309 CHR ''0''", THEN conjunct2, THEN conjunct2, THEN conjunct2, THEN conjunct2, THEN conjunct2, THEN conjunct2, THEN conjunct2, THEN conjunct2, THEN conjunct2, THEN conjunct1] hz
  have w4: "coerce (CHR ''1'' # replicate 309 CHR ''0'') = SNum \<infinity>" by blast
  have hh: "''1F'' \<noteq> [] \<and> set ''1F'' \<subseteq> set ''0123456789abcdefABCDEF'' \<and> digitsVal 16 ''1F'' < 2 ^ 53"
    by (simp add: digitsVal_def digitVal_def)
  from T [where hx = "''1F''", THEN conjunct2, THEN conjunct2, THEN conjunct2, THEN conjunct2, THEN conjunct2, THEN conjunct2, THEN conjunct2, THEN conjunct2, THEN conjunct2, THEN conjunct2, THEN conjunct2, THEN conjunct2, THEN conjunct2, THEN conjunct2, THEN conjunct1] hh have "coerce (''0x'' @ ''1F'') = SNum (enat (digitsVal 16 ''1F''))"
    by blast
  then have w5: "coerce ''0x1F'' = SNum 31"
    by (simp add: digitsVal_def digitVal_def numeral_eq_enat)
  have ho: "''17'' \<noteq> [] \<and> set ''17'' \<subseteq> set ''01234567'' \<and> digitsVal 8 ''17'' < 2 ^ 53"
    by (simp add: digitsVal_def digitVal_def)
  from T [where oc = "''17''", THEN conjunct2, THEN conjunct2, THEN conjunct2, THEN conjunct2, THEN conjunct2, THEN conjunct2, THEN conjunct2, THEN conjunct2, THEN conjunct2, THEN conjunct2, THEN conjunct2, THEN conjunct2, THEN conjunct2, THEN conjunct2, THEN conjunct2, THEN conjunct1] ho have "coerce (''0o'' @ ''17'') = SNum (enat (digitsVal 8 ''17''))"
    by blast
  then have w6: "coerce ''0o17'' = SNum 15"
    by (simp add: digitsVal_def digitVal_def numeral_eq_enat)
  have hbn: "''101'' \<noteq> [] \<and> set ''101'' \<subseteq> set ''01'' \<and> digitsVal 2 ''101'' < 2 ^ 53"
    by (simp add: digitsVal_def digitVal_def)
  from T [where bn = "''101''", THEN conjunct2, THEN conjunct2, THEN conjunct2, THEN conjunct2, THEN conjunct2, THEN conjunct2, THEN conjunct2, THEN conjunct2, THEN conjunct2, THEN conjunct2, THEN conjunct2, THEN conjunct2, THEN conjunct2, THEN conjunct2, THEN conjunct2, THEN conjunct2, THEN conjunct1] hbn
  have "coerce (''0b'' @ ''101'') = SNum (enat (digitsVal 2 ''101''))" by blast
  then have w7: "coerce ''0b101'' = SNum 5"
    by (simp add: digitsVal_def digitVal_def numeral_eq_enat)
  have he: "''12'' \<noteq> [] \<and> set ''12'' \<subseteq> set ''0123456789'' \<and> ''3'' \<noteq> []
      \<and> set ''3'' \<subseteq> set ''0123456789'' \<and> digitsVal 10 ''12'' * 10 ^ digitsVal 10 ''3'' < 2 ^ 53"
    by (simp add: digitsVal_def digitVal_def)
  from T [where d = "''12''" and k = "''3''", THEN conjunct2, THEN conjunct2, THEN conjunct2, THEN conjunct2, THEN conjunct2, THEN conjunct2, THEN conjunct2, THEN conjunct2, THEN conjunct2, THEN conjunct2, THEN conjunct2, THEN conjunct2, THEN conjunct2, THEN conjunct2, THEN conjunct2, THEN conjunct2, THEN conjunct2, THEN conjunct1] he
  have "coerce (''12'' @ ''e'' @ ''3'')
      = SNum (enat (digitsVal 10 ''12'' * 10 ^ digitsVal 10 ''3''))" by blast
  then have w8: "coerce ''12e3'' = SNum 12000"
    by (simp add: digitsVal_def digitVal_def numeral_eq_enat)
  have hw: "\<forall>c \<in> set ''  ''. (of_char c :: nat) \<in> {9, 10, 11, 12, 13, 32, 160}" by simp
  from T [where w = "''  ''", THEN conjunct2, THEN conjunct2, THEN conjunct2, THEN conjunct2, THEN conjunct2, THEN conjunct2, THEN conjunct2, THEN conjunct2, THEN conjunct2, THEN conjunct2, THEN conjunct2, THEN conjunct2, THEN conjunct2, THEN conjunct2, THEN conjunct2, THEN conjunct2, THEN conjunct2, THEN conjunct2, THEN conjunct2, THEN conjunct2, THEN conjunct1] hw have w9: "coerce ''  '' = SNum 0" by blast
  have lt1: "(3 :: enat) < 10" by simp
  from T [where p = "[SNum 2]" and u = 3 and v = 10 and rest = "[]" and rest' = "[SNum 0]", THEN conjunct2, THEN conjunct2, THEN conjunct2, THEN conjunct2, THEN conjunct2, THEN conjunct2, THEN conjunct2, THEN conjunct2, THEN conjunct2, THEN conjunct2, THEN conjunct2, THEN conjunct2, THEN conjunct2, THEN conjunct2, THEN conjunct2, THEN conjunct2, THEN conjunct2, THEN conjunct2, THEN conjunct2, THEN conjunct2, THEN conjunct2, THEN conjunct2, THEN conjunct2, THEN conjunct2, THEN conjunct2, THEN conjunct2, THEN conjunct2, THEN conjunct2, THEN conjunct2, THEN conjunct2, THEN conjunct1] lt1
  have "cmpSegs ([SNum 2] @ [SNum 3]) ([SNum 2] @ [SNum 10, SNum 0]) = - 1" by blast
  then have w11: "cmpSegs [SNum 2, SNum 3] [SNum 2, SNum 10, SNum 0] = - 1" by simp
  have lt2: "''alpha'' < ''beta''" by simp
  from T [where p = "[SNum 2]" and s = "''alpha''" and t = "''beta''" and rest = "[SNum 1]"
      and rest' = "[]", THEN conjunct2, THEN conjunct2, THEN conjunct2, THEN conjunct2, THEN conjunct2, THEN conjunct2, THEN conjunct2, THEN conjunct2, THEN conjunct2, THEN conjunct2, THEN conjunct2, THEN conjunct2, THEN conjunct2, THEN conjunct2, THEN conjunct2, THEN conjunct2, THEN conjunct2, THEN conjunct2, THEN conjunct2, THEN conjunct2, THEN conjunct2, THEN conjunct2, THEN conjunct2, THEN conjunct2, THEN conjunct2, THEN conjunct2, THEN conjunct2, THEN conjunct2, THEN conjunct2, THEN conjunct2, THEN conjunct2, THEN conjunct1] lt2
  have "cmpSegs ([SNum 2] @ [SStr ''alpha'', SNum 1]) ([SNum 2] @ [SStr ''beta'']) = - 1" by blast
  then have w12: "cmpSegs [SNum 2, SStr ''alpha'', SNum 1] [SNum 2, SStr ''beta''] = - 1" by simp
  show ?thesis
    by (intro conjI) (rule w1 w2 w3 w4 w5 w6 w7 w8 w9 w10 w11 w12)+
qed

section \<open>Properties of date parsing\<close>

text \<open>
  C8.  Whatever the engine's \<^verbatim>\<open>Date.parse\<close> does, \<^verbatim>\<open>parseDateString\<close> maps the compact
  string \<^verbatim>\<open>20230615143000\<close> to the instant 1686839400000 ms, which read as UTC is
  2023-06-15 14:30:00.000; and it returns \<^verbatim>\<open>null\<close> for every input that is not a string,
  for the empty string and for every string of white space only.
\<close>

theorem parseDateString_compact_and_null:
  "parseDateString dp (JStr ''20230615143000'') = Some 1686839400000
   \<and> utcFields 1686839400000 = (2023, 6, 15, 14, 30, 0, 0)
   \<and> ((\<forall>s. v \<noteq> JStr s) \<longrightarrow> parseDateString dp v = None)
   \<and> parseDateString dp (JStr []) = None
   \<and> (list_all isWhitespace w \<longrightarrow> parseDateString dp (JStr w) = None)"
proof -
  have tr: "trim ''20230615143000'' = ''20230615143000''"
    by (simp add: trim_def isWhitespace_def)
  have m: "fullDateMatch ''20230615143000''
      = Some (''2023'', ''06'', ''15'', ''14'', ''30'', ''00'')"
    by (simp add: fullDateMatch_def isDigit_def)
  have pI: "parseInt ''2023'' = 2023" "parseInt ''06'' = 6" "parseInt ''15'' = 15"
    "parseInt ''14'' = 14" "parseInt ''30'' = 30" "parseInt ''00'' = 0"
    by (simp_all add: parseInt_def digitsVal_def digitVal_def)
  have "Date_UTC 2023 5 15 14 30 0 = Some 1686839400000"
    by (simp add: Date_UTC_def MakeDay_def MakeTime_def MakeDate_def TimeClip_def
        DayFromYear_def isLeapYear_def daysBeforeMonth_def msPerDay_def)
  then have u: "Date_UTC (parseInt ''2023'') (parseInt ''06'' - 1) (parseInt ''15'')
      (parseInt ''14'') (parseInt ''30'') (parseInt ''00'') = Some 1686839400000"
    by (simp add: pI)
  have c1: "parseDateString dp (JStr ''20230615143000'') = Some 1686839400000"
    unfolding parseDateString_def by (simp only: tr m u Let_def jsval.case option.case
        prod.case list.distinct if_False)
  have c2: "utcFields 1686839400000 = (2023, 6, 15, 14, 30, 0, 0)"
    by code_simp
  have c3: "(\<forall>s. v \<noteq> JStr s) \<longrightarrow> parseDateString dp v = None"
    by (cases v) (simp_all add: parseDateString_def)
  have c4: "parseDateString dp (JStr []) = None"
    by (simp add: parseDateString_def trim_def)
  have c5: "list_all isWhitespace w \<longrightarrow> parseDateString dp (JStr w) = None"
  proof
    assume a: "list_all isWhitespace w"
    then have d: "dropWhile isWhitespace w = []" by (induction w) simp_all
    have "trim w = []" unfolding trim_def d by simp
    then show "parseDateString dp (JStr w) = None" by (simp add: parseDateString_def)
  qed
  from c1 c2 c3 c4 c5 show ?thesis by blast
qed

theorem parseDateString_compact_and_null_witness:
  "parseDateString (\<lambda>s. None) JNull = None
   \<and> parseDateString (\<lambda>s. None) (JNum 20230615143000) = None
   \<and> parseDateString (\<lambda>s. Some 0) (JStr [CHR '' '', CHR 0x09, CHR 0x0A]) = None"
proof -
  have w: "list_all isWhitespace [CHR '' '', CHR 0x09, CHR 0x0A]"
    by (simp add: isWhitespace_def)
  have n1: "\<forall>s. JNull \<noteq> JStr s" by simp
  have n2: "\<forall>s. JNum 20230615143000 \<noteq> JStr s" by simp
  from parseDateString_compact_and_null [of "\<lambda>s. None" JNull "[]"] n1
  have a: "parseDateString (\<lambda>s. None) JNull = None" by blast
  from parseDateString_compact_and_null [of "\<lambda>s. None" "JNum 20230615143000" "[]"] n2
  have b: "parseDateString (\<lambda>s. None) (JNum 20230615143000) = None" by blast
  from parseDateString_compact_and_null [of "\<lambda>s. Some 0" JNull
      "[CHR '' '', CHR 0x09, CHR 0x0A]"] w
  have c: "parseDateString (\<lambda>s. Some 0) (JStr [CHR '' '', CHR 0x09, CHR 0x0A]) = None"
    by blast
  from a b c show ?thesis by blast
qed

section \<open>Properties of the merge\<close>

lemma firstNonEmpty_Cons:
  "firstNonEmpty (x # xs) = (if x \<noteq> [] then x else firstNonEmpty xs)"
  by (simp add: firstNonEmpty_def)

lemma firstNonEmpty_single: "firstNonEmpty [x] = x"
  by (simp add: firstNonEmpty_def)

lemma firstNonEmpty_snoc: "firstNonEmpty (xs @ [x]) = orElse (firstNonEmpty xs) x"
  by (induction xs) (simp_all add: firstNonEmpty_Cons firstNonEmpty_single firstNonEmpty_def orElse_def)

lemma firstNonEmpty_Nil: "firstNonEmpty [] = []"
  by (simp add: firstNonEmpty_def)

lemma mapSet_fresh: "k \<notin> fst ` set m \<Longrightarrow> mapSet k v m = m @ [(k, v)]"
proof (induction m)
  case Nil
  show ?case by simp
next
  case (Cons e m)
  obtain a b where e: "e = (a, b)" by (cases e)
  from Cons.prems e have "k \<noteq> a" "k \<notin> fst ` set m" by auto
  with Cons.IH e show ?case by simp
qed

lemma mapSet_keys:
  "map fst (mapSet k v m) = (if k \<in> fst ` set m then map fst m else map fst m @ [k])"
proof (induction m)
  case Nil
  show ?case by simp
next
  case (Cons e m)
  obtain a b where e: "e = (a, b)" by (cases e)
  show ?case
  proof (cases "k = a")
    case True
    with e show ?thesis by simp
  next
    case False
    with e Cons.IH show ?thesis by simp
  qed
qed

lemma mapSet_length:
  "length (mapSet k v m) = (if k \<in> fst ` set m then length m else Suc (length m))"
  using arg_cong [OF mapSet_keys [of k v m], of length] by (simp split: if_splits)

lemma mapSet_mem:
  "distinct (map fst m) \<Longrightarrow>
   (k', v') \<in> set (mapSet k v m) \<longleftrightarrow> (k' = k \<and> v' = v) \<or> (k' \<noteq> k \<and> (k', v') \<in> set m)"
proof (induction m)
  case Nil
  show ?case by auto
next
  case (Cons e m)
  obtain a b where e: "e = (a, b)" by (cases e)
  from Cons.prems e have notin: "\<And>w. (a, w) \<notin> set m" and d: "distinct (map fst m)"
    by (auto simp: image_iff)
  note IH = Cons.IH [OF d]
  show ?case
  proof (cases "k = a")
    case True
    have "set (mapSet k v (e # m)) = insert (k, v) (set m)"
      by (simp add: e True)
    with notin True e show ?thesis by auto
  next
    case False
    have "set (mapSet k v (e # m)) = insert (a, b) (set (mapSet k v m))"
      using False by (simp add: e)
    with IH False e show ?thesis by auto
  qed
qed

lemma map_of_None_iff: "map_of m k = None \<longleftrightarrow> k \<notin> fst ` set m"
  by (simp add: map_of_eq_None_iff)

lemma groupOf_snoc:
  "groupOf b (apps @ [a]) = (if trim (bundle_id a) = b then groupOf b apps @ [a] else groupOf b apps)"
  by (simp add: groupOf_def)

lemma groupOf_empty_iff: "groupOf b apps = [] \<longleftrightarrow> (\<forall>a \<in> set apps. trim (bundle_id a) \<noteq> b)"
  by (auto simp: groupOf_def filter_empty_conv)

lemma mergeInto_fields:
  "bundle_id (mergeInto acc a) = bundle_id acc"
  "name (mergeInto acc a) = orElse (name acc) (name a)"
  "icon (mergeInto acc a) = orElse (icon acc) (icon a)"
  "dev (mergeInto acc a) = orElse (dev acc) (dev a)"
  "desc (mergeInto acc a) = orElse (desc acc) (desc a)"
  by (simp_all add: mergeInto_def)

lemma mergeInv_empty: "mergeInv [] []"
  by (simp add: mergeInv_def)

lemma entryOk_mono: "entryOk apps n k v \<Longrightarrow> n \<le> n' \<Longrightarrow> entryOk apps n' k v"
  by (cases k) (auto simp: entryOk_def)

lemma entryOk_other:
  "entryOk apps n k v \<Longrightarrow> k \<noteq> KStr (trim (bundle_id a)) \<Longrightarrow> entryOk (apps @ [a]) n k v"
  by (cases k) (auto simp: entryOk_def groupOf_snoc)

lemma mergeInv_step:
  assumes inv: "mergeInv apps m"
  shows "mergeInv (apps @ [a]) (mergeStep m a)"
proof -
  from inv have dist: "distinct (map fst m)"
    and ok: "\<And>k v. (k, v) \<in> set m \<Longrightarrow> entryOk apps (length m) k v"
    and cov: "\<And>x. x \<in> set apps \<Longrightarrow> trim (bundle_id x) \<noteq> [] \<Longrightarrow> KStr (trim (bundle_id x)) \<in> fst ` set m"
    by (auto simp: mergeInv_def)
  let ?b = "trim (bundle_id a)"
  show ?thesis
  proof (cases "?b = []")
    case True
    have fresh: "KSym (length m) \<notin> fst ` set m"
    proof
      assume "KSym (length m) \<in> fst ` set m"
      then obtain v where "(KSym (length m), v) \<in> set m" by auto
      from ok [OF this] show False by (simp add: entryOk_def)
    qed
    have step: "mergeStep m a = m @ [(KSym (length m), a)]"
      using True fresh by (simp add: mergeStep_def mapSet_fresh)
    have "distinct (map fst (mergeStep m a))"
      using dist fresh by (simp add: step)
    moreover have "\<forall>(k, v) \<in> set (mergeStep m a). entryOk (apps @ [a]) (length (mergeStep m a)) k v"
    proof (clarify)
      fix k v assume "(k, v) \<in> set (mergeStep m a)"
      then consider "(k, v) \<in> set m" | "k = KSym (length m)" "v = a" by (auto simp: step)
      then show "entryOk (apps @ [a]) (length (mergeStep m a)) k v"
      proof cases
        case 1
        have "k \<noteq> KStr ?b" using ok [OF 1] True by (auto simp: entryOk_def)
        with ok [OF 1] show ?thesis
          by (auto intro!: entryOk_other intro: entryOk_mono simp: step)
      next
        case 2
        then show ?thesis using True by (simp add: entryOk_def step)
      qed
    qed
    moreover have "\<forall>x \<in> set (apps @ [a]). trim (bundle_id x) \<noteq> [] \<longrightarrow>
        KStr (trim (bundle_id x)) \<in> fst ` set (mergeStep m a)"
      using cov True by (auto simp: step)
    ultimately show ?thesis by (simp add: mergeInv_def)
  next
    case False
    show ?thesis
    proof (cases "map_of m (KStr ?b)")
      case None
      then have fresh: "KStr ?b \<notin> fst ` set m" by (simp add: map_of_None_iff)
      have step: "mergeStep m a = m @ [(KStr ?b, a)]"
        using False None fresh by (simp add: mergeStep_def mapSet_fresh)
      have grp: "groupOf ?b apps = []"
        unfolding groupOf_empty_iff
      proof
        fix x assume x: "x \<in> set apps"
        show "trim (bundle_id x) \<noteq> ?b"
        proof
          assume e: "trim (bundle_id x) = ?b"
          with cov [OF x] False fresh show False by simp
        qed
      qed
      have "distinct (map fst (mergeStep m a))"
        using dist fresh by (simp add: step)
      moreover have "\<forall>(k, v) \<in> set (mergeStep m a). entryOk (apps @ [a]) (length (mergeStep m a)) k v"
      proof (clarify)
        fix k v assume "(k, v) \<in> set (mergeStep m a)"
        then consider "(k, v) \<in> set m" | "k = KStr ?b" "v = a" by (auto simp: step)
        then show "entryOk (apps @ [a]) (length (mergeStep m a)) k v"
        proof cases
          case 1
          then have "k \<noteq> KStr ?b" using fresh by (auto simp: image_iff)
          with ok [OF 1] show ?thesis
            by (auto intro!: entryOk_other intro: entryOk_mono simp: step)
        next
          case 2
          then show ?thesis using False grp
            by (simp add: entryOk_def groupOf_snoc firstNonEmpty_single)
        qed
      qed
      moreover have "\<forall>x \<in> set (apps @ [a]). trim (bundle_id x) \<noteq> [] \<longrightarrow>
          KStr (trim (bundle_id x)) \<in> fst ` set (mergeStep m a)"
        using cov by (auto simp: step)
      ultimately show ?thesis by (simp add: mergeInv_def)
    next
      case (Some acc)
      then have mem: "(KStr ?b, acc) \<in> set m" by (rule map_of_SomeD)
      then have present: "KStr ?b \<in> fst ` set m" by force
      have step: "mergeStep m a = mapSet (KStr ?b) (mergeInto acc a) m"
        using False Some by (simp add: mergeStep_def)
      have len: "length (mergeStep m a) = length m"
        using present by (simp add: step mapSet_length)
      have keys: "map fst (mergeStep m a) = map fst m"
        using present by (simp add: step mapSet_keys)
      have sets: "\<And>k v. (k, v) \<in> set (mergeStep m a) \<longleftrightarrow>
          (k = KStr ?b \<and> v = mergeInto acc a) \<or> (k \<noteq> KStr ?b \<and> (k, v) \<in> set m)"
        using dist by (simp add: step mapSet_mem)
      have "distinct (map fst (mergeStep m a))"
        using dist by (simp add: keys)
      moreover have "\<forall>(k, v) \<in> set (mergeStep m a). entryOk (apps @ [a]) (length (mergeStep m a)) k v"
      proof (clarify)
        fix k v assume "(k, v) \<in> set (mergeStep m a)"
        then consider "(k, v) \<in> set m" "k \<noteq> KStr ?b" | "k = KStr ?b" "v = mergeInto acc a"
          unfolding sets by blast
        then show "entryOk (apps @ [a]) (length (mergeStep m a)) k v"
        proof cases
          case 1
          with ok [OF 1(1)] show ?thesis
            by (auto intro!: entryOk_other simp: len)
        next
          case 2
          from ok [OF mem] show ?thesis
            by (simp add: 2 entryOk_def groupOf_snoc firstNonEmpty_snoc mergeInto_fields)
        qed
      qed
      moreover have "\<forall>x \<in> set (apps @ [a]). trim (bundle_id x) \<noteq> [] \<longrightarrow>
          KStr (trim (bundle_id x)) \<in> fst ` set (mergeStep m a)"
      proof -
        have "fst ` set (mergeStep m a) = fst ` set m"
          using keys by (metis set_map)
        with cov present show ?thesis by auto
      qed
      ultimately show ?thesis by (simp add: mergeInv_def)
    qed
  qed
qed

lemma mergeInv_foldl: "mergeInv apps (foldl mergeStep [] apps)"
proof (induction apps rule: rev_induct)
  case Nil
  show ?case by (simp add: mergeInv_empty)
next
  case (snoc a apps)
  then show ?case by (simp add: mergeInv_step)
qed


lemma filter_key_single:
  "distinct (map fst m) \<Longrightarrow> (k, v) \<in> set m \<Longrightarrow> filter (\<lambda>e. fst e = k) m = [(k, v)]"
proof (induction m)
  case Nil
  then show ?case by simp
next
  case (Cons e m)
  obtain a b where e: "e = (a, b)" by (cases e)
  from Cons.prems(1) e have notin: "\<And>w. (a, w) \<notin> set m" and d: "distinct (map fst m)"
    by (auto simp: image_iff)
  show ?case
  proof (cases "a = k")
    case True
    with notin have none: "\<forall>x \<in> set m. fst x \<noteq> k" by auto
    then have "filter (\<lambda>e. fst e = k) m = []" by (simp add: filter_empty_conv)
    moreover from Cons.prems(2) True notin e have "b = v" by auto
    ultimately show ?thesis using True e by simp
  next
    case False
    with Cons.prems(2) e have "(k, v) \<in> set m" by auto
    from Cons.IH [OF d this] False e show ?thesis by simp
  qed
qed

lemma sortVersions_fields:
  "bundle_id (sortVersions dp v) = bundle_id v"
  "name (sortVersions dp v) = name v"
  "icon (sortVersions dp v) = icon v"
  "dev (sortVersions dp v) = dev v"
  "desc (sortVersions dp v) = desc v"
  by (simp_all add: sortVersions_def)

lemma mergeByBundle_group:
  assumes b: "b \<noteq> []" and g: "groupOf b apps \<noteq> []"
  shows "\<exists>v. (KStr b, v) \<in> set (foldl mergeStep [] apps)
           \<and> filter (\<lambda>r. trim (bundle_id r) = b) (mergeByBundle dp apps) = [sortVersions dp v]
           \<and> name v = firstNonEmpty (map name (groupOf b apps))
           \<and> icon v = firstNonEmpty (map icon (groupOf b apps))
           \<and> dev v = firstNonEmpty (map dev (groupOf b apps))
           \<and> desc v = firstNonEmpty (map desc (groupOf b apps))"
proof -
  let ?M = "foldl mergeStep [] apps"
  have inv: "mergeInv apps ?M" by (rule mergeInv_foldl)
  then have dist: "distinct (map fst ?M)"
    and ok: "\<And>k v. (k, v) \<in> set ?M \<Longrightarrow> entryOk apps (length ?M) k v"
    and cov: "\<And>x. x \<in> set apps \<Longrightarrow> trim (bundle_id x) \<noteq> [] \<Longrightarrow> KStr (trim (bundle_id x)) \<in> fst ` set ?M"
    by (auto simp: mergeInv_def)
  from g obtain x where x: "x \<in> set apps" "trim (bundle_id x) = b"
    by (auto simp: groupOf_empty_iff)
  with cov [OF x(1)] b obtain v where v: "(KStr b, v) \<in> set ?M" by auto
  have same: "\<And>e. e \<in> set ?M \<Longrightarrow>
      (trim (bundle_id (sortVersions dp (snd e))) = b) = (fst e = KStr b)"
  proof -
    fix e assume e: "e \<in> set ?M"
    obtain k w where kw: "e = (k, w)" by (cases e)
    from ok [of k w] e kw have "entryOk apps (length ?M) k w" by simp
    then show "(trim (bundle_id (sortVersions dp (snd e))) = b) = (fst e = KStr b)"
      using b by (cases k) (auto simp: entryOk_def kw sortVersions_fields)
  qed
  have "filter (\<lambda>r. trim (bundle_id r) = b) (mergeByBundle dp apps)
      = map (sortVersions dp \<circ> snd) (filter (\<lambda>e. trim (bundle_id (sortVersions dp (snd e))) = b) ?M)"
    by (simp add: mergeByBundle_def filter_map comp_def)
  also have "filter (\<lambda>e. trim (bundle_id (sortVersions dp (snd e))) = b) ?M
      = filter (\<lambda>e. fst e = KStr b) ?M"
    by (rule filter_cong [OF refl]) (rule same)
  also have "\<dots> = [(KStr b, v)]" by (rule filter_key_single [OF dist v])
  finally have f: "filter (\<lambda>r. trim (bundle_id r) = b) (mergeByBundle dp apps) = [sortVersions dp v]"
    by simp
  from ok [OF v] have "name v = firstNonEmpty (map name (groupOf b apps))"
    "icon v = firstNonEmpty (map icon (groupOf b apps))"
    "dev v = firstNonEmpty (map dev (groupOf b apps))"
    "desc v = firstNonEmpty (map desc (groupOf b apps))"
    by (simp_all add: entryOk_def)
  with v f show ?thesis by blast
qed

lemma mergeByBundle_pair:
  assumes "trim (bundle_id x) = b" "trim (bundle_id y) = b" "b \<noteq> []"
  shows "mergeByBundle dp [x, y] = [sortVersions dp (mergeInto x y)]"
  using assms by (simp add: mergeByBundle_def mergeStep_def)

text \<open>
  C4.  For a bundle identifier \<open>b\<close> that some input app carries, the result of the merge
  has exactly one app of that identifier, and its name, icon, developer and description
  are each the first non-empty value of that field over the group of \<open>b\<close> in input order;
  a merge step never changes a field that is already non-empty; and two apps of one
  bundle, one named \<^verbatim>\<open>Foo\<close> and one with an empty name, merge to the name \<^verbatim>\<open>Foo\<close> in either
  order.
\<close>

theorem mergeByBundle_first_nonempty:
  "(b \<noteq> [] \<and> groupOf b apps \<noteq> [] \<longrightarrow>
      (\<exists>r. filter (\<lambda>r. trim (bundle_id r) = b) (mergeByBundle dp apps) = [r]
         \<and> name r = firstNonEmpty (map name (groupOf b apps))
         \<and> icon r = firstNonEmpty (map icon (groupOf b apps))
         \<and> dev r = firstNonEmpty (map dev (groupOf b apps))
         \<and> desc r = firstNonEmpty (map desc (groupOf b apps))))
   \<and> (name acc \<noteq> [] \<longrightarrow> name (mergeInto acc a) = name acc)
   \<and> (icon acc \<noteq> [] \<longrightarrow> icon (mergeInto acc a) = icon acc)
   \<and> (dev acc \<noteq> [] \<longrightarrow> dev (mergeInto acc a) = dev acc)
   \<and> (desc acc \<noteq> [] \<longrightarrow> desc (mergeInto acc a) = desc acc)
   \<and> (b \<noteq> [] \<and> trim (bundle_id x) = b \<and> trim (bundle_id y) = b
        \<and> name x = ''Foo'' \<and> name y = [] \<longrightarrow>
        map name (mergeByBundle dp [x, y]) = [''Foo'']
        \<and> map name (mergeByBundle dp [y, x]) = [''Foo''])"
proof -
  have c1: "b \<noteq> [] \<and> groupOf b apps \<noteq> [] \<longrightarrow>
      (\<exists>r. filter (\<lambda>r. trim (bundle_id r) = b) (mergeByBundle dp apps) = [r]
         \<and> name r = firstNonEmpty (map name (groupOf b apps))
         \<and> icon r = firstNonEmpty (map icon (groupOf b apps))
         \<and> dev r = firstNonEmpty (map dev (groupOf b apps))
         \<and> desc r = firstNonEmpty (map desc (groupOf b apps)))"
  proof
    assume h: "b \<noteq> [] \<and> groupOf b apps \<noteq> []"
    then obtain v where
      "filter (\<lambda>r. trim (bundle_id r) = b) (mergeByBundle dp apps) = [sortVersions dp v]"
      "name v = firstNonEmpty (map name (groupOf b apps))"
      "icon v = firstNonEmpty (map icon (groupOf b apps))"
      "dev v = firstNonEmpty (map dev (groupOf b apps))"
      "desc v = firstNonEmpty (map desc (groupOf b apps))"
      using mergeByBundle_group [of b apps dp] by blast
    then show "\<exists>r. filter (\<lambda>r. trim (bundle_id r) = b) (mergeByBundle dp apps) = [r]
         \<and> name r = firstNonEmpty (map name (groupOf b apps))
         \<and> icon r = firstNonEmpty (map icon (groupOf b apps))
         \<and> dev r = firstNonEmpty (map dev (groupOf b apps))
         \<and> desc r = firstNonEmpty (map desc (groupOf b apps))"
      by (intro exI [of _ "sortVersions dp v"]) (simp add: sortVersions_fields)
  qed
  have c2: "(name acc \<noteq> [] \<longrightarrow> name (mergeInto acc a) = name acc)
   \<and> (icon acc \<noteq> [] \<longrightarrow> icon (mergeInto acc a) = icon acc)
   \<and> (dev acc \<noteq> [] \<longrightarrow> dev (mergeInto acc a) = dev acc)
   \<and> (desc acc \<noteq> [] \<longrightarrow> desc (mergeInto acc a) = desc acc)"
    by (simp add: mergeInto_fields orElse_def)
  have c3: "b \<noteq> [] \<and> trim (bundle_id x) = b \<and> trim (bundle_id y) = b
        \<and> name x = ''Foo'' \<and> name y = [] \<longrightarrow>
        map name (mergeByBundle dp [x, y]) = [''Foo'']
        \<and> map name (mergeByBundle dp [y, x]) = [''Foo'']"
    by (simp add: mergeByBundle_pair sortVersions_fields mergeInto_fields orElse_def)
  from c1 c2 c3 show ?thesis by blast
qed

theorem mergeByBundle_first_nonempty_witness:
  "(\<exists>r. filter (\<lambda>r. trim (bundle_id r) = ''com.x.y'')
          (mergeByBundle isoDateParse
             [mkApp '' com.x.y'' [] ''A'' [], mkApp ''other'' ''Bar'' ''A'' [],
              mkApp ''com.x.y '' ''Foo'' ''B'' [], mkApp ''com.x.y'' ''Baz'' ''C'' []]) = [r]
        \<and> name r = ''Foo'')
   \<and> name (mergeInto (mkApp ''com.x.y'' ''Foo'' ''A'' []) (mkApp ''com.x.y'' ''Baz'' ''B'' [])) = ''Foo''
   \<and> map name (mergeByBundle isoDateParse
        [mkApp ''com.x.y'' ''Foo'' ''A'' [], mkApp ''com.x.y'' [] ''B'' []]) = [''Foo'']
   \<and> map name (mergeByBundle isoDateParse
        [mkApp ''com.x.y'' [] ''B'' [], mkApp ''com.x.y'' ''Foo'' ''A'' []]) = [''Foo'']"
proof -
  let ?apps = "[mkApp '' com.x.y'' [] ''A'' [], mkApp ''other'' ''Bar'' ''A'' [],
      mkApp ''com.x.y '' ''Foo'' ''B'' [], mkApp ''com.x.y'' ''Baz'' ''C'' []]"
  have t1: "trim '' com.x.y'' = ''com.x.y''" "trim ''com.x.y '' = ''com.x.y''"
    "trim ''com.x.y'' = ''com.x.y''" "trim ''other'' = ''other''"
    by (simp_all add: trim_def isWhitespace_def)
  have g: "groupOf ''com.x.y'' ?apps = [mkApp '' com.x.y'' [] ''A'' [],
      mkApp ''com.x.y '' ''Foo'' ''B'' [], mkApp ''com.x.y'' ''Baz'' ''C'' []]"
    by (simp add: groupOf_def mkApp_def t1)
  have f: "firstNonEmpty (map name (groupOf ''com.x.y'' ?apps)) = ''Foo''"
    unfolding g by (simp add: firstNonEmpty_def mkApp_def)
  note T = mergeByBundle_first_nonempty [where b = "''com.x.y''" and apps = ?apps
      and dp = isoDateParse and acc = "mkApp ''com.x.y'' ''Foo'' ''A'' []"
      and a = "mkApp ''com.x.y'' ''Baz'' ''B'' []"
      and x = "mkApp ''com.x.y'' ''Foo'' ''A'' []" and y = "mkApp ''com.x.y'' [] ''B'' []"]
  have h1: "''com.x.y'' \<noteq> [] \<and> groupOf ''com.x.y'' ?apps \<noteq> []"
    unfolding g by simp
  have h2: "name (mkApp ''com.x.y'' ''Foo'' ''A'' []) \<noteq> []"
    by (simp add: mkApp_def)
  have h3: "''com.x.y'' \<noteq> [] \<and> trim (bundle_id (mkApp ''com.x.y'' ''Foo'' ''A'' [])) = ''com.x.y''
      \<and> trim (bundle_id (mkApp ''com.x.y'' [] ''B'' [])) = ''com.x.y''
      \<and> name (mkApp ''com.x.y'' ''Foo'' ''A'' []) = ''Foo''
      \<and> name (mkApp ''com.x.y'' [] ''B'' []) = []"
    by (simp add: mkApp_def t1)
  from T h1 obtain r where
    "filter (\<lambda>r. trim (bundle_id r) = ''com.x.y'') (mergeByBundle isoDateParse ?apps) = [r]"
    "name r = firstNonEmpty (map name (groupOf ''com.x.y'' ?apps))"
    by blast
  then have c1: "\<exists>r. filter (\<lambda>r. trim (bundle_id r) = ''com.x.y'')
      (mergeByBundle isoDateParse ?apps) = [r] \<and> name r = ''Foo''"
    unfolding f by blast
  from T h2 have "name (mergeInto (mkApp ''com.x.y'' ''Foo'' ''A'' [])
      (mkApp ''com.x.y'' ''Baz'' ''B'' [])) = name (mkApp ''com.x.y'' ''Foo'' ''A'' [])"
    by blast
  then have c2: "name (mergeInto (mkApp ''com.x.y'' ''Foo'' ''A'' [])
      (mkApp ''com.x.y'' ''Baz'' ''B'' [])) = ''Foo''"
    by (simp add: mkApp_def)
  from T h3 have c3: "map name (mergeByBundle isoDateParse
        [mkApp ''com.x.y'' ''Foo'' ''A'' [], mkApp ''com.x.y'' [] ''B'' []]) = [''Foo'']
      \<and> map name (mergeByBundle isoDateParse
        [mkApp ''com.x.y'' [] ''B'' [], mkApp ''com.x.y'' ''Foo'' ''A'' []]) = [''Foo'']"
    by blast
  from c1 c2 c3 show ?thesis by blast
qed

section \<open>Concrete runs of the engine and the sort\<close>

lemma sortBy_pair:
  "sortBy cmp [x, y] = (if positive (cmp x y) then [y, x] else [x, y])"
  by (simp add: sortBy_def)

lemma iso1: "isoDateParse ''2023-01-01'' = Some 1672531200000"
  by (simp add: isoDateParse_def isDigit_def parseInt_def digitsVal_def digitVal_def
      daysInMonth_def MakeDay_def MakeDate_def TimeClip_def DayFromYear_def isLeapYear_def
      daysBeforeMonth_def msPerDay_def)

lemma iso2: "isoDateParse ''soon'' = None"
  by (simp add: isoDateParse_def)

lemma sv1: "semverCompare ''2.0'' ''1.0'' = 1" by code_simp
lemma sv2: "semverCompare ''1.0'' ''2.0'' = - 1" by code_simp

lemma pds1: "parseDateString isoDateParse (JStr ''2023-01-01'') = Some 1672531200000"
proof -
  have t: "trim ''2023-01-01'' = ''2023-01-01''" by (simp add: trim_def isWhitespace_def)
  have m: "fullDateMatch ''2023-01-01'' = None" by (simp add: fullDateMatch_def)
  show ?thesis unfolding parseDateString_def
    by (simp only: t m iso1 Let_def jsval.case option.case list.distinct if_False)
qed

text \<open>
  C3.  The first app of a bundle is copied with its version list as it is: a pair of
  version string and download URL that occurs twice in that list occurs twice in the
  merged list, although the second app repeats the pair.  In the other order the pair
  occurs once, because the versions of every later app are checked against the pairs
  already seen.
\<close>

theorem mergeByBundle_keeps_duplicate_of_first:
  "map versions (mergeByBundle dp
      [mkApp ''com.x.y'' ''X'' ''A''
         [mkVersion ''1.0.0'' ''https://x/a.ipa'' None, mkVersion ''1.0.0'' ''https://x/a.ipa'' None],
       mkApp ''com.x.y'' ''X'' ''B'' [mkVersion ''1.0.0'' ''https://x/a.ipa'' None]])
   = [[mkVersion ''1.0.0'' ''https://x/a.ipa'' None, mkVersion ''1.0.0'' ''https://x/a.ipa'' None]]
   \<and> map versions (mergeByBundle dp
      [mkApp ''com.x.y'' ''X'' ''B'' [mkVersion ''1.0.0'' ''https://x/a.ipa'' None],
       mkApp ''com.x.y'' ''X'' ''A''
         [mkVersion ''1.0.0'' ''https://x/a.ipa'' None, mkVersion ''1.0.0'' ''https://x/a.ipa'' None]])
   = [[mkVersion ''1.0.0'' ''https://x/a.ipa'' None]]"
proof -
  let ?v = "mkVersion ''1.0.0'' ''https://x/a.ipa'' None"
  have t: "trim ''com.x.y'' = ''com.x.y''" by (simp add: trim_def isWhitespace_def)
  have c: "cmpVersionRecords dp ?v ?v = Num 0"
    using cmpSegs_refl [of "seg ''1.0.0''"]
    by (simp add: cmpVersionRecords_def dateOrNull_def mkVersion_def semverCompare_def)
  have s2: "sortBy (cmpVersionRecords dp) [?v, ?v] = [?v, ?v]"
    by (simp add: sortBy_pair c)
  have s1: "sortBy (cmpVersionRecords dp) [?v] = [?v]"
    by (simp add: sortBy_def)
  have m1: "foldl mergeStep [] [mkApp ''com.x.y'' ''X'' ''A'' [?v, ?v], mkApp ''com.x.y'' ''X'' ''B'' [?v]]
      = [(KStr ''com.x.y'', mkApp ''com.x.y'' ''X'' ''A'' [?v, ?v])]"
    by (simp add: mergeStep_def mkApp_def t mergeInto_def orElse_def Let_def versionId_def mkVersion_def)
  have m2: "foldl mergeStep [] [mkApp ''com.x.y'' ''X'' ''B'' [?v], mkApp ''com.x.y'' ''X'' ''A'' [?v, ?v]]
      = [(KStr ''com.x.y'', mkApp ''com.x.y'' ''X'' ''B'' [?v])]"
    by (simp add: mergeStep_def mkApp_def t mergeInto_def orElse_def Let_def versionId_def mkVersion_def)
  show ?thesis
    unfolding mergeByBundle_def m1 m2
    by (simp add: sortVersions_def s1 s2 mkApp_def)
qed

section \<open>Properties of the version-record comparators\<close>

text \<open>
  The cases in which the comparator of the merge orders two records as stated: by time
  value, newer first, when both have a non-empty date that \<^verbatim>\<open>Date.parse\<close> accepts; the dated
  record first when the other has no date (absent or empty); and by the descending
  comparison of the version strings when neither has a date.  The comparator of the detail
  page orders by parsed date, newer first, when \<^verbatim>\<open>parseDateString\<close> accepts both dates, and
  otherwise by the descending comparison of the version strings.
\<close>

lemma cmpVersionRecords_cases:
  "(v_date x = Some sx \<and> sx \<noteq> [] \<and> dp sx = Some tx
      \<and> v_date y = Some sy \<and> sy \<noteq> [] \<and> dp sy = Some ty \<longrightarrow>
        cmpVersionRecords dp x y = Num (real_of_int (ty - tx))
        \<and> sortBy (cmpVersionRecords dp) [x, y] = (if tx < ty then [y, x] else [x, y]))
   \<and> (v_date x = Some sx \<and> sx \<noteq> [] \<and> dp sx = Some tx
      \<and> (v_date y = None \<or> v_date y = Some []) \<longrightarrow>
        cmpVersionRecords dp x y = Num (- 1) \<and> cmpVersionRecords dp y x = Num 1
        \<and> sortBy (cmpVersionRecords dp) [x, y] = [x, y]
        \<and> sortBy (cmpVersionRecords dp) [y, x] = [x, y])
   \<and> ((v_date x = None \<or> v_date x = Some []) \<and> (v_date y = None \<or> v_date y = Some []) \<longrightarrow>
        cmpVersionRecords dp x y = Num (real_of_int (semverCompare (v_version y) (v_version x))))
   \<and> (parseDateString dp (dateVal (v_date x)) = Some tx
      \<and> parseDateString dp (dateVal (v_date y)) = Some ty \<longrightarrow>
        cmpDetailVersions dp x y = Num (real_of_int (ty - tx)))
   \<and> (parseDateString dp (dateVal (v_date x)) = None
      \<or> parseDateString dp (dateVal (v_date y)) = None \<longrightarrow>
        cmpDetailVersions dp x y = Num (real_of_int (semverCompare (v_version y) (v_version x))))"
proof -
  have c1: "v_date x = Some sx \<and> sx \<noteq> [] \<and> dp sx = Some tx
      \<and> v_date y = Some sy \<and> sy \<noteq> [] \<and> dp sy = Some ty \<longrightarrow>
        cmpVersionRecords dp x y = Num (real_of_int (ty - tx))
        \<and> sortBy (cmpVersionRecords dp) [x, y] = (if tx < ty then [y, x] else [x, y])"
    by (simp add: cmpVersionRecords_def dateOrNull_def sortBy_pair)
  have c2: "v_date x = Some sx \<and> sx \<noteq> [] \<and> dp sx = Some tx
      \<and> (v_date y = None \<or> v_date y = Some []) \<longrightarrow>
        cmpVersionRecords dp x y = Num (- 1) \<and> cmpVersionRecords dp y x = Num 1
        \<and> sortBy (cmpVersionRecords dp) [x, y] = [x, y]
        \<and> sortBy (cmpVersionRecords dp) [y, x] = [x, y]"
    by (auto simp: cmpVersionRecords_def dateOrNull_def sortBy_pair)
  have c3: "(v_date x = None \<or> v_date x = Some []) \<and> (v_date y = None \<or> v_date y = Some []) \<longrightarrow>
        cmpVersionRecords dp x y = Num (real_of_int (semverCompare (v_version y) (v_version x)))"
    by (auto simp: cmpVersionRecords_def dateOrNull_def)
  have c4: "parseDateString dp (dateVal (v_date x)) = Some tx
      \<and> parseDateString dp (dateVal (v_date y)) = Some ty \<longrightarrow>
        cmpDetailVersions dp x y = Num (real_of_int (ty - tx))"
    by (simp add: cmpDetailVersions_def)
  have c5: "parseDateString dp (dateVal (v_date x)) = None
      \<or> parseDateString dp (dateVal (v_date y)) = None \<longrightarrow>
        cmpDetailVersions dp x y = Num (real_of_int (semverCompare (v_version y) (v_version x)))"
    by (auto simp: cmpDetailVersions_def split: option.splits)
  from c1 c2 c3 c4 c5 show ?thesis by blast
qed

text \<open>
  C2.  The comparator of the merge tests \<^verbatim>\<open>x.date\<close> for truthiness and builds
  \<^verbatim>\<open>new Date(x.date)\<close> without asking whether the date is valid, where the comparator of the
  detail page asks \<^verbatim>\<open>parseDateString\<close>.  So a record whose date is a non-empty string that
  does not parse counts as dated.  Version 1.0 with the date \<^verbatim>\<open>soon\<close> sorts before version
  9.0 without a date, for every engine, although neither date parses and 9.0 is the higher
  version string (the detail page puts 9.0 first).  Against a record whose date parses the
  difference is NaN, the sort leaves the two as they came, and the record with the one
  parseable date is not first.  The compact date \<^verbatim>\<open>20230615143000\<close>, which \<^verbatim>\<open>parseDateString\<close>
  accepts, is not a date for \<^verbatim>\<open>new Date\<close>: against January 2023 the difference is again
  NaN and the older record stays first (the detail page puts the newer one first).
\<close>

theorem cmpVersionRecords_unparseable_date:
  "parseDateString isoDateParse (dateVal (v_date (mkVersion ''1.0'' ''u1'' (Some ''soon'')))) = None
   \<and> cmpVersionRecords dp (mkVersion ''1.0'' ''u1'' (Some ''soon'')) (mkVersion ''9.0'' ''u9'' None)
        = Num (- 1)
   \<and> sortBy (cmpVersionRecords dp)
        [mkVersion ''9.0'' ''u9'' None, mkVersion ''1.0'' ''u1'' (Some ''soon'')]
      = [mkVersion ''1.0'' ''u1'' (Some ''soon''), mkVersion ''9.0'' ''u9'' None]
   \<and> map versions (mergeByBundle dp [mkApp ''com.x.y'' ''X'' ''A''
        [mkVersion ''9.0'' ''u9'' None, mkVersion ''1.0'' ''u1'' (Some ''soon'')]])
      = [[mkVersion ''1.0'' ''u1'' (Some ''soon''), mkVersion ''9.0'' ''u9'' None]]
   \<and> semverCompare ''9.0'' ''1.0'' = 1
   \<and> sortBy (cmpDetailVersions isoDateParse)
        [mkVersion ''1.0'' ''u1'' (Some ''soon''), mkVersion ''9.0'' ''u9'' None]
      = [mkVersion ''9.0'' ''u9'' None, mkVersion ''1.0'' ''u1'' (Some ''soon'')]
   \<and> parseDateString isoDateParse (dateVal (v_date (mkVersion ''2.0'' ''u2'' (Some ''2023-01-01''))))
        = Some 1672531200000
   \<and> cmpVersionRecords isoDateParse
        (mkVersion ''1.0'' ''u1'' (Some ''soon'')) (mkVersion ''2.0'' ''u2'' (Some ''2023-01-01''))
      = NaN
   \<and> sortBy (cmpVersionRecords isoDateParse)
        [mkVersion ''1.0'' ''u1'' (Some ''soon''), mkVersion ''2.0'' ''u2'' (Some ''2023-01-01'')]
      = [mkVersion ''1.0'' ''u1'' (Some ''soon''), mkVersion ''2.0'' ''u2'' (Some ''2023-01-01'')]
   \<and> parseDateString isoDateParse
        (dateVal (v_date (mkVersion ''3.0'' ''u3'' (Some ''20230615143000''))))
        = Some 1686839400000
   \<and> cmpVersionRecords isoDateParse
        (mkVersion ''2.0'' ''u2'' (Some ''2023-01-01'')) (mkVersion ''3.0'' ''u3'' (Some ''20230615143000''))
      = NaN
   \<and> sortBy (cmpVersionRecords isoDateParse)
        [mkVersion ''2.0'' ''u2'' (Some ''2023-01-01''), mkVersion ''3.0'' ''u3'' (Some ''20230615143000'')]
      = [mkVersion ''2.0'' ''u2'' (Some ''2023-01-01''), mkVersion ''3.0'' ''u3'' (Some ''20230615143000'')]
   \<and> sortBy (cmpDetailVersions isoDateParse)
        [mkVersion ''2.0'' ''u2'' (Some ''2023-01-01''), mkVersion ''3.0'' ''u3'' (Some ''20230615143000'')]
      = [mkVersion ''3.0'' ''u3'' (Some ''20230615143000''), mkVersion ''2.0'' ''u2'' (Some ''2023-01-01'')]"
proof -
  let ?j = "mkVersion ''1.0'' ''u1'' (Some ''soon'')"
  let ?n = "mkVersion ''9.0'' ''u9'' None"
  let ?d = "mkVersion ''2.0'' ''u2'' (Some ''2023-01-01'')"
  let ?c = "mkVersion ''3.0'' ''u3'' (Some ''20230615143000'')"
  have ts: "trim ''soon'' = ''soon''" by (simp add: trim_def isWhitespace_def)
  have pj: "parseDateString isoDateParse (JStr ''soon'') = None"
    by (simp add: parseDateString_def ts fullDateMatch_def iso2)
  have pc: "parseDateString dp' (JStr ''20230615143000'') = Some 1686839400000" for dp'
  proof -
    have t: "trim ''20230615143000'' = ''20230615143000''"
      by (simp add: trim_def isWhitespace_def)
    have m: "fullDateMatch ''20230615143000''
        = Some (''2023'', ''06'', ''15'', ''14'', ''30'', ''00'')"
      by (simp add: fullDateMatch_def isDigit_def)
    have u: "Date_UTC (parseInt ''2023'') (parseInt ''06'' - 1) (parseInt ''15'')
        (parseInt ''14'') (parseInt ''30'') (parseInt ''00'') = Some 1686839400000"
      by (simp add: Date_UTC_def parseInt_def digitsVal_def digitVal_def MakeDay_def MakeDate_def
          MakeTime_def TimeClip_def DayFromYear_def isLeapYear_def daysBeforeMonth_def
          msPerDay_def)
    show ?thesis unfolding parseDateString_def
      by (simp only: t m u Let_def jsval.case option.case prod.case list.distinct if_False)
  qed
  have ic: "isoDateParse ''20230615143000'' = None" by (simp add: isoDateParse_def)
  have s91: "semverCompare ''9.0'' ''1.0'' = 1" by code_simp
  have s19: "semverCompare ''1.0'' ''9.0'' = - 1" by code_simp
  have c1: "parseDateString isoDateParse (dateVal (v_date ?j)) = None"
    by (simp add: mkVersion_def dateVal_def pj)
  have c2: "cmpVersionRecords dp ?j ?n = Num (- 1)"
    by (simp add: cmpVersionRecords_def dateOrNull_def mkVersion_def)
  have c2': "cmpVersionRecords dp ?n ?j = Num 1"
    by (simp add: cmpVersionRecords_def dateOrNull_def mkVersion_def)
  have c3: "sortBy (cmpVersionRecords dp) [?n, ?j] = [?j, ?n]"
    by (simp add: sortBy_pair c2')
  have t: "trim ''com.x.y'' = ''com.x.y''" by (simp add: trim_def isWhitespace_def)
  have m1: "foldl mergeStep [] [mkApp ''com.x.y'' ''X'' ''A'' [?n, ?j]]
      = [(KStr ''com.x.y'', mkApp ''com.x.y'' ''X'' ''A'' [?n, ?j])]"
    by (simp add: mergeStep_def mkApp_def t Let_def)
  have c4: "map versions (mergeByBundle dp [mkApp ''com.x.y'' ''X'' ''A'' [?n, ?j]]) = [[?j, ?n]]"
    unfolding mergeByBundle_def m1 by (simp add: sortVersions_def c3 mkApp_def)
  have d1: "cmpDetailVersions isoDateParse ?j ?n = Num 1"
    by (simp add: cmpDetailVersions_def mkVersion_def dateVal_def pj s91)
  have c6: "sortBy (cmpDetailVersions isoDateParse) [?j, ?n] = [?n, ?j]"
    by (simp add: sortBy_pair d1)
  have c7: "parseDateString isoDateParse (dateVal (v_date ?d)) = Some 1672531200000"
    by (simp add: mkVersion_def dateVal_def pds1)
  have c8: "cmpVersionRecords isoDateParse ?j ?d = NaN"
    by (simp add: cmpVersionRecords_def dateOrNull_def mkVersion_def iso1 iso2)
  have c9: "sortBy (cmpVersionRecords isoDateParse) [?j, ?d] = [?j, ?d]"
    by (simp add: sortBy_pair c8)
  have c10: "parseDateString isoDateParse (dateVal (v_date ?c)) = Some 1686839400000"
    by (simp add: mkVersion_def dateVal_def pc)
  have c11: "cmpVersionRecords isoDateParse ?d ?c = NaN"
    by (simp add: cmpVersionRecords_def dateOrNull_def mkVersion_def iso1 ic)
  have c12: "sortBy (cmpVersionRecords isoDateParse) [?d, ?c] = [?d, ?c]"
    by (simp add: sortBy_pair c11)
  have d2: "cmpDetailVersions isoDateParse ?d ?c = Num 14308200000"
    by (simp add: cmpDetailVersions_def mkVersion_def dateVal_def pds1 pc)
  have c13: "sortBy (cmpDetailVersions isoDateParse) [?d, ?c] = [?c, ?d]"
    by (simp add: sortBy_pair d2)
  from c1 c2 c3 c4 s91 c6 c7 c8 c9 c10 c11 c12 c13 show ?thesis by blast
qed

section \<open>Properties of the sort\<close>













section \<open>Properties of the search ranking\<close>











lemma sub_exactname:
  "sublist ''exactname'' ''exactname''"
  "sublist ''exactname'' ''exactnamefoo''"
  "sublist ''exactname'' ''exactnamebar''"
  by (rule prefix_imp_sublist, simp)+






section \<open>Properties of the controller\<close>













section \<open>Properties of the strict constructors\<close>

lemma notObject_iff: "notObject d \<longleftrightarrow> (\<forall>xs. d \<noteq> JArr xs) \<and> (\<forall>kvs. d \<noteq> JObj kvs)"
  by (cases d) (simp_all add: notObject_def)

lemma mapErr_Inl: "mapErr f xs = Inl e \<Longrightarrow> \<exists>x \<in> set xs. f x = Inl e"
  by (induction xs) (auto split: sum.splits)

lemma mapArray_Inl:
  "mapArray f v = Inl e \<Longrightarrow> (\<exists>x. f x = Inl e) \<or> e = TypeError ''map is not a function''"
  by (cases v) (auto simp: mapArray_def dest: mapErr_Inl split: if_splits)

lemma mapArray_absent: "\<not> truthy v \<Longrightarrow> mapArray f v = Inr []"
  by (simp add: mapArray_def)

lemma newVersion_Inl: "newVersion x = Inl e \<Longrightarrow> e = Error ''Invalid version data''"
  by (auto simp: newVersion_def split: if_splits)

lemma newPermission_Inl: "newPermission x = Inl e \<Longrightarrow> e = Error ''Invalid permission data''"
  by (auto simp: newPermission_def split: if_splits)

lemma newAppPermissions_Inl:
  "newAppPermissions x = Inl e \<Longrightarrow> e = Error ''Invalid app permissions data''"
  by (auto simp: newAppPermissions_def split: if_splits)

lemma newNews_Inl: "newNews x = Inl e \<Longrightarrow> e = Error ''Invalid news data''"
  by (auto simp: newNews_def split: if_splits)

lemma newApp_Inl:
  assumes "newApp x = Inl e"
  shows "e \<noteq> Error ''Invalid repository data''"
proof (cases "notObject x")
  case True
  with assms have "e = Error ''Invalid app data''" by (simp add: newApp_def)
  then show ?thesis by simp
next
  case False
  with assms consider
      "mapArray newVersion (getProp x ''versions'') = Inl e"
    | "mapArray newPermission (getProp x ''permissions'') = Inl e"
    | "newAppPermissions (getProp x ''appPermissions'') = Inl e"
    by (auto simp: newApp_def split: sum.splits if_splits)
  then show ?thesis
  proof cases
    case 1
    from mapArray_Inl [OF 1] show ?thesis by (auto dest: newVersion_Inl)
  next
    case 2
    from mapArray_Inl [OF 2] show ?thesis by (auto dest: newPermission_Inl)
  next
    case 3
    from newAppPermissions_Inl [OF 3] show ?thesis by simp
  qed
qed

lemma newASRepository_object_error:
  assumes "\<not> notObject d" "newASRepository d = Inl e"
  shows "e \<noteq> Error ''Invalid repository data''"
proof -
  from assms consider
      "mapArray newApp (getProp d ''apps'') = Inl e"
    | "mapArray newNews (getProp d ''news'') = Inl e"
    by (auto simp: newASRepository_def split: sum.splits)
  then show ?thesis
  proof cases
    case 1
    from mapArray_Inl [OF 1] show ?thesis by (auto dest: newApp_Inl)
  next
    case 2
    from mapArray_Inl [OF 2] show ?thesis by (auto dest: newNews_Inl)
  qed
qed

lemma newASRepository_guard:
  "newASRepository d = Inl (Error ''Invalid repository data'') \<longleftrightarrow> notObject d"
proof
  assume a: "newASRepository d = Inl (Error ''Invalid repository data'')"
  show "notObject d"
  proof (rule ccontr)
    assume "\<not> notObject d"
    from newASRepository_object_error [OF this a] show False by simp
  qed
next
  assume "notObject d"
  then show "newASRepository d = Inl (Error ''Invalid repository data'')"
    by (simp add: newASRepository_def)
qed

lemma notObject_isObject: "notObject d \<longleftrightarrow> \<not> isObject d"
  by (cases d) (simp_all add: notObject_def isObject_def)

lemma mapErr_Inr_iff:
  "(\<exists>ys. mapErr f xs = Inr ys) \<longleftrightarrow> list_all (\<lambda>x. \<exists>y. f x = Inr y) xs"
  by (induction xs) (auto split: sum.splits)

lemma mapErr_Inr_all2:
  "mapErr f xs = Inr ys \<Longrightarrow> list_all2 (\<lambda>x y. f x = Inr y) xs ys"
  by (induction xs arbitrary: ys) (auto split: sum.splits)

lemma mapArray_Inr_iff:
  "(\<exists>ys. mapArray f v = Inr ys) \<longleftrightarrow> listOf (\<lambda>x. \<exists>y. f x = Inr y) v"
  by (cases v) (simp_all add: mapArray_def listOf_def mapErr_Inr_iff)

lemma mapArray_Inr_all2:
  "mapArray f v = Inr ys \<Longrightarrow> list_all2 (\<lambda>x y. f x = Inr y) (elements v) ys"
  by (cases v) (auto simp: mapArray_def elements_def mapErr_Inr_all2 split: if_splits)

lemma newVersion_Inr_iff: "(\<exists>y. newVersion x = Inr y) \<longleftrightarrow> isObject x"
  by (simp add: newVersion_def notObject_isObject)

lemma newPermission_Inr_iff: "(\<exists>y. newPermission x = Inr y) \<longleftrightarrow> isObject x"
  by (simp add: newPermission_def notObject_isObject)

lemma newNews_Inr_iff: "(\<exists>y. newNews x = Inr y) \<longleftrightarrow> isObject x"
  by (simp add: newNews_def notObject_isObject)

lemma newAppPermissions_Inr_iff: "(\<exists>y. newAppPermissions x = Inr y) \<longleftrightarrow> isObject x"
  by (simp add: newAppPermissions_def notObject_isObject)

lemma newApp_Inr_iff: "(\<exists>y. newApp x = Inr y) \<longleftrightarrow> appAccepted x"
proof -
  have v: "(\<exists>ys. mapArray newVersion (getProp x ''versions'') = Inr ys)
      \<longleftrightarrow> listOf isObject (getProp x ''versions'')"
    by (simp only: mapArray_Inr_iff newVersion_Inr_iff)
  have p: "(\<exists>ys. mapArray newPermission (getProp x ''permissions'') = Inr ys)
      \<longleftrightarrow> listOf isObject (getProp x ''permissions'')"
    by (simp only: mapArray_Inr_iff newPermission_Inr_iff)
  have a: "(\<exists>y. newAppPermissions (getProp x ''appPermissions'') = Inr y)
      \<longleftrightarrow> isObject (getProp x ''appPermissions'')"
    by (rule newAppPermissions_Inr_iff)
  show ?thesis
  proof (cases "isObject x")
    case False
    then show ?thesis by (simp add: newApp_def appAccepted_def notObject_isObject)
  next
    case True
    show ?thesis
    proof
      assume "\<exists>y. newApp x = Inr y"
      then obtain y where y: "newApp x = Inr y" ..
      from y True have 1: "\<exists>ys. mapArray newVersion (getProp x ''versions'') = Inr ys"
        by (cases "mapArray newVersion (getProp x ''versions'')")
          (simp_all add: newApp_def notObject_isObject)
      from y True 1 have 2: "\<exists>ys. mapArray newPermission (getProp x ''permissions'') = Inr ys"
        by (cases "mapArray newPermission (getProp x ''permissions'')")
          (auto simp: newApp_def notObject_isObject)
      from y True 1 2 have 3: "truthy (getProp x ''appPermissions'')
          \<longrightarrow> (\<exists>y. newAppPermissions (getProp x ''appPermissions'') = Inr y)"
        by (cases "newAppPermissions (getProp x ''appPermissions'')")
          (auto simp: newApp_def notObject_isObject)
      from True 1 2 3 show "appAccepted x"
        unfolding appAccepted_def v [symmetric] p [symmetric] a [symmetric] by blast
    next
      assume "appAccepted x"
      then obtain vs ps where vs: "mapArray newVersion (getProp x ''versions'') = Inr vs"
        and ps: "mapArray newPermission (getProp x ''permissions'') = Inr ps"
        and ap: "truthy (getProp x ''appPermissions'')
          \<longrightarrow> (\<exists>y. newAppPermissions (getProp x ''appPermissions'') = Inr y)"
        unfolding appAccepted_def v [symmetric] p [symmetric] a [symmetric] by blast
      from True vs ps ap show "\<exists>y. newApp x = Inr y"
        by (auto simp: newApp_def notObject_isObject)
    qed
  qed
qed

lemma newASRepository_Inr_iff: "(\<exists>r. newASRepository d = Inr r) \<longleftrightarrow> docAccepted d"
proof -
  have a: "(\<exists>ys. mapArray newApp (getProp d ''apps'') = Inr ys)
      \<longleftrightarrow> listOf appAccepted (getProp d ''apps'')"
    by (simp only: mapArray_Inr_iff newApp_Inr_iff)
  have n: "(\<exists>ys. mapArray newNews (getProp d ''news'') = Inr ys)
      \<longleftrightarrow> listOf isObject (getProp d ''news'')"
    by (simp only: mapArray_Inr_iff newNews_Inr_iff)
  show ?thesis
  proof (cases "isObject d")
    case False
    then show ?thesis by (simp add: newASRepository_def docAccepted_def notObject_isObject)
  next
    case True
    show ?thesis
    proof
      assume "\<exists>r. newASRepository d = Inr r"
      then obtain r where r: "newASRepository d = Inr r" ..
      from r True have 1: "\<exists>ys. mapArray newApp (getProp d ''apps'') = Inr ys"
        by (cases "mapArray newApp (getProp d ''apps'')")
          (simp_all add: newASRepository_def notObject_isObject)
      from r True 1 have 2: "\<exists>ys. mapArray newNews (getProp d ''news'') = Inr ys"
        by (cases "mapArray newNews (getProp d ''news'')")
          (auto simp: newASRepository_def notObject_isObject)
      from True 1 2 show "docAccepted d"
        unfolding docAccepted_def a [symmetric] n [symmetric] by blast
    next
      assume "docAccepted d"
      then obtain as ns where "mapArray newApp (getProp d ''apps'') = Inr as"
        and "mapArray newNews (getProp d ''news'') = Inr ns"
        unfolding docAccepted_def a [symmetric] n [symmetric] by blast
      with True show "\<exists>r. newASRepository d = Inr r"
        by (simp add: newASRepository_def notObject_isObject)
    qed
  qed
qed

lemma newASRepository_apps:
  assumes "newASRepository d = Inr r"
  shows "\<exists>as. getProp r ''apps'' = JArr as
      \<and> list_all2 (\<lambda>x y. newApp x = Inr y) (elements (getProp d ''apps'')) as"
proof -
  from assms have o: "\<not> notObject d" by (auto simp: newASRepository_def split: if_splits)
  from assms o obtain as where as: "mapArray newApp (getProp d ''apps'') = Inr as"
    by (cases "mapArray newApp (getProp d ''apps'')") (simp_all add: newASRepository_def)
  from assms o as obtain ns where ns: "mapArray newNews (getProp d ''news'') = Inr ns"
    by (cases "mapArray newNews (getProp d ''news'')") (simp_all add: newASRepository_def)
  from assms o as ns have "getProp r ''apps'' = JArr as"
    by (auto simp: newASRepository_def field_def)
  with mapArray_Inr_all2 [OF as] show ?thesis by blast
qed

lemma elements_falsy: "\<not> truthy v \<Longrightarrow> elements v = []"
  by (cases v) (simp_all add: elements_def)


text \<open>
  C9 (as amended).  The constructor of the repository throws its error
  \<^verbatim>\<open>Invalid repository data\<close> exactly when the input is not an object (a string, a number, a
  boolean, \<^verbatim>\<open>null\<close> or \<^verbatim>\<open>undefined\<close>).  An object-shaped input is accepted, without a throw,
  exactly when each of its list fields (\<^verbatim>\<open>apps\<close>, \<^verbatim>\<open>news\<close>, and \<^verbatim>\<open>versions\<close> and \<^verbatim>\<open>permissions\<close> of
  every app) is absent or an array of objects and the \<^verbatim>\<open>appPermissions\<close> of every app is
  absent or an object; every other field may be missing or of any shape.  An accepted
  input yields an app list with one constructed app for each element of \<^verbatim>\<open>apps\<close>, in order,
  and the empty list when \<^verbatim>\<open>apps\<close> is absent.
\<close>

theorem newASRepository_throws:
  "(newASRepository d = Inl (Error ''Invalid repository data'') \<longleftrightarrow> \<not> isObject d)
   \<and> newASRepository (JStr s) = Inl (Error ''Invalid repository data'')
   \<and> newASRepository JNull = Inl (Error ''Invalid repository data'')
   \<and> ((\<exists>r. newASRepository d = Inr r) \<longleftrightarrow> docAccepted d)
   \<and> (docAccepted d \<longrightarrow>
        (\<exists>r as. newASRepository d = Inr r \<and> getProp r ''apps'' = JArr as
           \<and> list_all2 (\<lambda>x y. newApp x = Inr y) (elements (getProp d ''apps'')) as
           \<and> (\<not> truthy (getProp d ''apps'') \<longrightarrow> as = [])))"
proof -
  have c1: "newASRepository d = Inl (Error ''Invalid repository data'') \<longleftrightarrow> \<not> isObject d"
    by (simp only: newASRepository_guard notObject_isObject)
  have c2: "newASRepository (JStr s) = Inl (Error ''Invalid repository data'')"
    by (simp add: newASRepository_guard notObject_iff)
  have c3: "newASRepository JNull = Inl (Error ''Invalid repository data'')"
    by (simp add: newASRepository_guard notObject_iff)
  have c4: "(\<exists>r. newASRepository d = Inr r) \<longleftrightarrow> docAccepted d"
    by (rule newASRepository_Inr_iff)
  have c5: "docAccepted d \<longrightarrow>
        (\<exists>r as. newASRepository d = Inr r \<and> getProp r ''apps'' = JArr as
           \<and> list_all2 (\<lambda>x y. newApp x = Inr y) (elements (getProp d ''apps'')) as
           \<and> (\<not> truthy (getProp d ''apps'') \<longrightarrow> as = []))"
  proof
    assume "docAccepted d"
    with c4 obtain r where r: "newASRepository d = Inr r" by blast
    from newASRepository_apps [OF r] obtain as where as: "getProp r ''apps'' = JArr as"
      "list_all2 (\<lambda>x y. newApp x = Inr y) (elements (getProp d ''apps'')) as" by blast
    have "\<not> truthy (getProp d ''apps'') \<longrightarrow> as = []"
      using as(2) by (auto simp: elements_falsy)
    with r as show "\<exists>r as. newASRepository d = Inr r \<and> getProp r ''apps'' = JArr as
           \<and> list_all2 (\<lambda>x y. newApp x = Inr y) (elements (getProp d ''apps'')) as
           \<and> (\<not> truthy (getProp d ''apps'') \<longrightarrow> as = [])" by blast
  qed
  from c1 c2 c3 c4 c5 show ?thesis by blast
qed

text \<open>
  The claim as stated fails: each of these inputs is an object, and the constructor
  throws.  A nested element that is not an object meets the guard of its own constructor
  (\<^verbatim>\<open>App\<close>, \<^verbatim>\<open>Version\<close>, \<^verbatim>\<open>Permission\<close>, \<^verbatim>\<open>AppPermissions\<close>, \<^verbatim>\<open>News\<close>), and a list field that is
  truthy and not an array has no \<^verbatim>\<open>map\<close> method.
\<close>

theorem newASRepository_counterexample:
  "newASRepository (JObj [(''name'', JStr ''Repo''), (''apps'', JArr [JNull])])
     = Inl (Error ''Invalid app data'')
   \<and> newASRepository (JObj [(''apps'', JArr [JObj [(''name'', JStr ''A''), (''versions'', JArr [JNum 5])]])])
     = Inl (Error ''Invalid version data'')
   \<and> newASRepository (JObj [(''apps'', JArr [JObj [(''permissions'', JArr [JNull])]])])
     = Inl (Error ''Invalid permission data'')
   \<and> newASRepository (JObj [(''apps'', JArr [JObj [(''appPermissions'', JStr ''all'')]])])
     = Inl (Error ''Invalid app permissions data'')
   \<and> newASRepository (JObj [(''news'', JArr [JStr ''x''])])
     = Inl (Error ''Invalid news data'')
   \<and> newASRepository (JObj [(''apps'', JObj [])])
     = Inl (TypeError ''map is not a function'')"
  by (simp add: newASRepository_def notObject_def mapArray_def newApp_def newVersion_def
      newPermission_def newAppPermissions_def newNews_def)

theorem newASRepository_throws_witness:
  "(\<exists>as. newASRepository (JObj [(''name'', JStr ''Repo''),
        (''apps'', JArr [JObj [(''name'', JStr ''A''), (''versions'', JArr [JObj [(''version'', JStr ''1.0'')]])],
                         JObj [(''name'', JStr ''B'')]])])
     = Inr (JObj
        [(''identifier'', JStr []), (''name'', JStr ''Repo''), (''subtitle'', JStr []),
         (''description'', JStr []), (''website'', JStr []), (''iconURL'', JStr []),
         (''headerURL'', JStr []), (''tintColor'', JStr []), (''patreonURL'', JStr []),
         (''userInfo'', JObj []), (''apps'', JArr as), (''featuredApps'', JArr []),
         (''news'', JArr [])])
      \<and> length as = 2)
   \<and> (\<exists>r. newASRepository (JObj [(''name'', JStr ''Repo'')]) = Inr r \<and> getProp r ''apps'' = JArr [])
   \<and> (\<exists>r. newASRepository (JArr [JNum 1]) = Inr r \<and> getProp r ''apps'' = JArr [])
   \<and> newASRepository (JNum 0) = Inl (Error ''Invalid repository data'')
   \<and> (\<nexists>r. newASRepository (JObj [(''apps'', JArr [JObj [], JNull])]) = Inr r)"
proof -
  let ?a1 = "JObj [(''name'', JStr ''A''), (''versions'', JArr [JObj [(''version'', JStr ''1.0'')]])]"
  let ?a2 = "JObj [(''name'', JStr ''B'')]"
  let ?d = "JObj [(''name'', JStr ''Repo''), (''apps'', JArr [?a1, ?a2])]"
  let ?e = "JObj [(''name'', JStr ''Repo'')]"
  note T = newASRepository_throws
  have h: "docAccepted ?d"
    by (simp add: docAccepted_def appAccepted_def isObject_def listOf_def)
  from T [where d = ?d] h
  obtain r as where r: "newASRepository ?d = Inr r" "getProp r ''apps'' = JArr as"
    "list_all2 (\<lambda>x y. newApp x = Inr y) (elements (getProp ?d ''apps'')) as" by blast
  from r(3) have l: "length as = 2" by (auto simp: elements_def dest: list_all2_lengthD)
  from r(1) obtain as' where e: "newASRepository ?d = Inr (JObj
        [(''identifier'', JStr []), (''name'', JStr ''Repo''), (''subtitle'', JStr []),
         (''description'', JStr []), (''website'', JStr []), (''iconURL'', JStr []),
         (''headerURL'', JStr []), (''tintColor'', JStr []), (''patreonURL'', JStr []),
         (''userInfo'', JObj []), (''apps'', JArr as'), (''featuredApps'', JArr []),
         (''news'', JArr [])])"
    by (auto simp: newASRepository_def notObject_def mapArray_def field_def orDefault_def
        split: sum.splits)
  with r(1,2) have "as' = as" by auto
  with e l have w1: "\<exists>as. newASRepository ?d = Inr (JObj
        [(''identifier'', JStr []), (''name'', JStr ''Repo''), (''subtitle'', JStr []),
         (''description'', JStr []), (''website'', JStr []), (''iconURL'', JStr []),
         (''headerURL'', JStr []), (''tintColor'', JStr []), (''patreonURL'', JStr []),
         (''userInfo'', JObj []), (''apps'', JArr as), (''featuredApps'', JArr []),
         (''news'', JArr [])]) \<and> length as = 2" by blast
  have h2: "docAccepted ?e \<and> \<not> truthy (getProp ?e ''apps'')"
    by (simp add: docAccepted_def isObject_def listOf_def)
  from T [where d = ?e] h2
  have w2: "\<exists>r. newASRepository ?e = Inr r \<and> getProp r ''apps'' = JArr []" by blast
  have h3: "docAccepted (JArr [JNum 1]) \<and> \<not> truthy (getProp (JArr [JNum 1]) ''apps'')"
    by (simp add: docAccepted_def isObject_def listOf_def)
  from T [where d = "JArr [JNum 1]"] h3
  have w3: "\<exists>r. newASRepository (JArr [JNum 1]) = Inr r \<and> getProp r ''apps'' = JArr []"
    by blast
  have h4: "\<not> isObject (JNum 0)" by (simp add: isObject_def)
  from T [where d = "JNum 0"] h4
  have w4: "newASRepository (JNum 0) = Inl (Error ''Invalid repository data'')" by blast
  have h5: "\<not> docAccepted (JObj [(''apps'', JArr [JObj [], JNull])])"
    by (simp add: docAccepted_def appAccepted_def isObject_def listOf_def)
  from T [where d = "JObj [(''apps'', JArr [JObj [], JNull])]"] h5
  have w5: "\<nexists>r. newASRepository (JObj [(''apps'', JArr [JObj [], JNull])]) = Inr r" by blast
  from w1 w2 w3 w4 w5 show ?thesis by blast
qed

section \<open>Properties of the merge on the heap\<close>

text \<open>
  C10.  An app without a bundle identifier is put into the \<^verbatim>\<open>Map\<close> as the input object
  itself, and the final loop sorts the \<^verbatim>\<open>versions\<close> array of every object in the \<^verbatim>\<open>Map\<close> in
  place: the array of the input, at address 1, is reordered.  The same app with a bundle
  identifier is copied first, and its array is left as it was.
\<close>

theorem mergeByBundleH_sorts_input_array:
  "arrs (oneAppHeap []) 1 = Some [mkVersion ''1.0'' ''u1'' None, mkVersion ''2.0'' ''u2'' None]
   \<and> mergeByBundleH dp (oneAppHeap []) [0]
       = Some ([0], (oneAppHeap [])\<lparr> arrs := (arrs (oneAppHeap []))
            (1 \<mapsto> [mkVersion ''2.0'' ''u2'' None, mkVersion ''1.0'' ''u1'' None]) \<rparr>)
   \<and> mergeByBundleH dp (oneAppHeap ''com.x.y'') [0]
       = Some ([3], (oneAppHeap ''com.x.y'')
           \<lparr> arrs := (arrs (oneAppHeap ''com.x.y''))
                (2 \<mapsto> [mkVersion ''2.0'' ''u2'' None, mkVersion ''1.0'' ''u1'' None]),
             objs := (objs (oneAppHeap ''com.x.y''))
                (3 \<mapsto> mkObj ''com.x.y'' ''Solo'' ''A'' (Some 2)),
             fresh := 4 \<rparr>)"
proof -
  let ?v1 = "mkVersion ''1.0'' ''u1'' None"
  let ?v2 = "mkVersion ''2.0'' ''u2'' None"
  have c: "cmpVersionRecords dp ?v1 ?v2 = Num 1"
    by (simp add: cmpVersionRecords_def dateOrNull_def mkVersion_def sv1)
  have s: "sortBy (cmpVersionRecords dp) [?v1, ?v2] = [?v2, ?v1]"
    by (simp add: sortBy_pair c)
  have t0: "trim [] = []" by (simp add: trim_def)
  have t1: "trim ''com.x.y'' = ''com.x.y''" by (simp add: trim_def isWhitespace_def)
  have a: "arrs (oneAppHeap []) 1 = Some [?v1, ?v2]"
    by (simp add: oneAppHeap_def)
  have l0: "mergeLoopH [] (oneAppHeap []) [0] = Some ([(KSym 0, 0)], oneAppHeap [])"
    by (simp add: mergeStepH_def oneAppHeap_def mkObj_def t0)
  have b: "mergeByBundleH dp (oneAppHeap []) [0]
       = Some ([0], (oneAppHeap [])\<lparr> arrs := (arrs (oneAppHeap [])) (1 \<mapsto> [?v2, ?v1]) \<rparr>)"
    unfolding mergeByBundleH_def l0
    by (simp add: oneAppHeap_def mkObj_def s)
  have l1: "mergeLoopH [] (oneAppHeap ''com.x.y'') [0]
      = Some ([(KStr ''com.x.y'', 3)], (oneAppHeap ''com.x.y'')
           \<lparr> arrs := (arrs (oneAppHeap ''com.x.y'')) (2 \<mapsto> [?v1, ?v2]),
             objs := (objs (oneAppHeap ''com.x.y''))
                (3 \<mapsto> mkObj ''com.x.y'' ''Solo'' ''A'' (Some 2)),
             fresh := 4 \<rparr>)"
    by (simp add: mergeStepH_def oneAppHeap_def mkObj_def t1 readVersions_def Let_def)
  have d: "mergeByBundleH dp (oneAppHeap ''com.x.y'') [0]
       = Some ([3], (oneAppHeap ''com.x.y'')
           \<lparr> arrs := (arrs (oneAppHeap ''com.x.y'')) (2 \<mapsto> [?v2, ?v1]),
             objs := (objs (oneAppHeap ''com.x.y''))
                (3 \<mapsto> mkObj ''com.x.y'' ''Solo'' ''A'' (Some 2)),
             fresh := 4 \<rparr>)"
    unfolding mergeByBundleH_def l1
    by (simp add: oneAppHeap_def mkObj_def s)
  from a b d show ?thesis by blast
qed

text \<open>
  When every input app has a bundle identifier, the merge writes only to what it
  allocated: every object and array of the heap at the call is unchanged.
\<close>

lemma mapSet_values: "(k', v') \<in> set (mapSet k v m) \<Longrightarrow> v' = v \<or> (k', v') \<in> set m"
proof (induction m)
  case Nil
  then show ?case by simp
next
  case (Cons e m)
  obtain a b where e: "e = (a, b)" by (cases e)
  from Cons e show ?case by (auto split: if_splits)
qed

lemma frameInv_step:
  assumes inv: "frameInv h0 m h"
    and a: "a < fresh h0"
    and bnd: "\<And>ob. objs h0 a = Some ob \<Longrightarrow> trim (bundle_id ob) \<noteq> []"
    and st: "mergeStepH m h a = Some (m', h')"
  shows "frameInv h0 m' h'"
proof -
  from inv have f: "fresh h0 \<le> fresh h"
    and same: "\<And>x. x < fresh h0 \<Longrightarrow> objs h x = objs h0 x \<and> arrs h x = arrs h0 x"
    and vals: "\<And>k v. (k, v) \<in> set m \<Longrightarrow> fresh h0 \<le> v
        \<and> (\<forall>ob. objs h v = Some ob \<longrightarrow> (\<exists>r. versions ob = Some r \<and> fresh h0 \<le> r))"
    by (auto simp: frameInv_def)
  from st obtain ob where ob: "objs h a = Some ob"
    by (auto simp: mergeStepH_def split: option.splits)
  with same [OF a] have "objs h0 a = Some ob" by simp
  from bnd [OF this] have b: "trim (bundle_id ob) \<noteq> []" .
  from st ob b obtain avs where avs: "readVersions h ob = Some avs"
    by (auto simp: mergeStepH_def Let_def split: option.splits)
  show ?thesis
  proof (cases "map_of m (KStr (trim (bundle_id ob)))")
    case None
    with st ob b avs have m': "m' = mapSet (KStr (trim (bundle_id ob))) (fresh h + 1) m"
      and h': "h' = h\<lparr> arrs := (arrs h)(fresh h \<mapsto> avs),
          objs := (objs h)(fresh h + 1 \<mapsto> ob\<lparr> versions := Some (fresh h) \<rparr>),
          fresh := fresh h + 2 \<rparr>"
      by (auto simp: mergeStepH_def Let_def)
    have 1: "fresh h0 \<le> fresh h'" using f by (simp add: h')
    have 2: "\<forall>x < fresh h0. objs h' x = objs h0 x \<and> arrs h' x = arrs h0 x"
      using f same by (simp add: h')
    have 3: "\<forall>(k, v) \<in> set m'. fresh h0 \<le> v
        \<and> (\<forall>ob. objs h' v = Some ob \<longrightarrow> (\<exists>r. versions ob = Some r \<and> fresh h0 \<le> r))"
    proof (clarify)
      fix k v assume "(k, v) \<in> set m'"
      then consider "v = fresh h + 1" | "(k, v) \<in> set m"
        unfolding m' using mapSet_values by fastforce
      then show "fresh h0 \<le> v
          \<and> (\<forall>ob. objs h' v = Some ob \<longrightarrow> (\<exists>r. versions ob = Some r \<and> fresh h0 \<le> r))"
      proof cases
        case 1
        then show ?thesis using f by (simp add: h')
      next
        case 2
        from vals [OF 2] f show ?thesis by (auto simp: h')
      qed
    qed
    from 1 2 3 show ?thesis by (simp add: frameInv_def)
  next
    case (Some accAddr)
    then have mem: "(KStr (trim (bundle_id ob)), accAddr) \<in> set m" by (rule map_of_SomeD)
    from vals [OF mem] have ge: "fresh h0 \<le> accAddr"
      and vr: "\<And>o'. objs h accAddr = Some o' \<Longrightarrow> \<exists>r. versions o' = Some r \<and> fresh h0 \<le> r"
      by auto
    from st ob b avs Some obtain acc accArr accVs where
      acc: "objs h accAddr = Some acc" and accArr: "versions acc = Some accArr"
      and accVs: "arrs h accArr = Some accVs"
      and m': "m' = mapSet (KStr (trim (bundle_id ob))) accAddr m"
      and h': "h' = h\<lparr> objs := (objs h)(accAddr \<mapsto>
            acc\<lparr> name := orElse (name acc) (name ob), icon := orElse (icon acc) (icon ob),
                 dev := orElse (dev acc) (dev ob), desc := orElse (desc acc) (desc ob) \<rparr>),
          arrs := (arrs h)(accArr \<mapsto> addVersions (map versionId accVs) accVs avs) \<rparr>"
      by (auto simp: mergeStepH_def Let_def split: option.splits)
    from vr [OF acc] accArr have ger: "fresh h0 \<le> accArr" by simp
    have 1: "fresh h0 \<le> fresh h'" using f by (simp add: h')
    have 2: "\<forall>x < fresh h0. objs h' x = objs h0 x \<and> arrs h' x = arrs h0 x"
      using ge ger same by (simp add: h')
    have 3: "\<forall>(k, v) \<in> set m'. fresh h0 \<le> v
        \<and> (\<forall>ob. objs h' v = Some ob \<longrightarrow> (\<exists>r. versions ob = Some r \<and> fresh h0 \<le> r))"
    proof (clarify)
      fix k v assume "(k, v) \<in> set m'"
      then consider "v = accAddr" | "(k, v) \<in> set m" "v \<noteq> accAddr"
        unfolding m' using mapSet_values by fastforce
      then show "fresh h0 \<le> v
          \<and> (\<forall>ob. objs h' v = Some ob \<longrightarrow> (\<exists>r. versions ob = Some r \<and> fresh h0 \<le> r))"
      proof cases
        case 1
        then show ?thesis using ge ger accArr by (simp add: h')
      next
        case 2
        from vals [OF 2(1)] 2(2) show ?thesis by (simp add: h')
      qed
    qed
    from 1 2 3 show ?thesis by (simp add: frameInv_def)
  qed
qed

lemma frameInv_loop:
  assumes "frameInv h0 m h"
    and "\<forall>a \<in> set as. a < fresh h0 \<and> (\<forall>ob. objs h0 a = Some ob \<longrightarrow> trim (bundle_id ob) \<noteq> [])"
    and "mergeLoopH m h as = Some (m', h')"
  shows "frameInv h0 m' h'"
  using assms
proof (induction as arbitrary: m h)
  case Nil
  then show ?case by simp
next
  case (Cons a as)
  from Cons.prems(3) obtain m1 h1 where s: "mergeStepH m h a = Some (m1, h1)"
    and l: "mergeLoopH m1 h1 as = Some (m', h')"
    by (auto split: option.splits)
  from Cons.prems(2) have a: "a < fresh h0"
    and b: "\<And>ob. objs h0 a = Some ob \<Longrightarrow> trim (bundle_id ob) \<noteq> []" by auto
  have "frameInv h0 m1 h1" by (rule frameInv_step [OF Cons.prems(1) a b s])
  from Cons.IH [OF this _ l] Cons.prems(2) show ?case by simp
qed

lemma sortLoopH_frame:
  assumes "sortLoopH dp h vs = Some h'"
    and "\<forall>v \<in> set vs. \<forall>ob. objs h v = Some ob \<longrightarrow> (\<exists>r. versions ob = Some r \<and> n \<le> r)"
  shows "objs h' = objs h \<and> (\<forall>x < n. arrs h' x = arrs h x)"
  using assms
proof (induction vs arbitrary: h)
  case Nil
  then show ?case by simp
next
  case (Cons v vs)
  from Cons.prems(1) obtain ob where ob: "objs h v = Some ob"
    by (auto split: option.splits)
  with Cons.prems(2) obtain r where r: "versions ob = Some r" "n \<le> r" by auto
  with Cons.prems(1) ob obtain xs where xs: "arrs h r = Some xs"
    and l: "sortLoopH dp (h\<lparr> arrs := (arrs h)(r \<mapsto> sortBy (cmpVersionRecords dp) xs) \<rparr>) vs = Some h'"
    by (auto split: option.splits)
  let ?h1 = "h\<lparr> arrs := (arrs h)(r \<mapsto> sortBy (cmpVersionRecords dp) xs) \<rparr>"
  have "\<forall>v \<in> set vs. \<forall>ob. objs ?h1 v = Some ob \<longrightarrow> (\<exists>r. versions ob = Some r \<and> n \<le> r)"
    using Cons.prems(2) by simp
  from Cons.IH [OF l this] r show ?case by simp
qed

lemma mergeByBundleH_frame:
  assumes run: "mergeByBundleH dp h apps = Some (rs, h')"
    and inp: "\<forall>a \<in> set apps. a < fresh h
        \<and> (\<forall>ob. objs h a = Some ob \<longrightarrow> trim (bundle_id ob) \<noteq> [])"
  shows "\<forall>x < fresh h. objs h' x = objs h x \<and> arrs h' x = arrs h x"
proof -
  from run obtain m h1 where l: "mergeLoopH [] h apps = Some (m, h1)"
    and s: "sortLoopH dp h1 (map snd m) = Some h'"
    by (auto simp: mergeByBundleH_def split: option.splits)
  have "frameInv h [] h" by (simp add: frameInv_def)
  from frameInv_loop [OF this inp l] have inv: "frameInv h m h1" .
  then have same: "\<forall>x < fresh h. objs h1 x = objs h x \<and> arrs h1 x = arrs h x"
    and vals: "\<forall>v \<in> set (map snd m). \<forall>ob. objs h1 v = Some ob \<longrightarrow>
        (\<exists>r. versions ob = Some r \<and> fresh h \<le> r)"
    by (auto simp: frameInv_def)
  from sortLoopH_frame [OF s vals] same show ?thesis by simp
qed

text \<open>
  The function on values is the function on the heap read back: for a well-formed input
  the merge on the heap returns, and the objects it returns stand for the apps that
  \<open>mergeByBundle\<close> computes from the values of the input.
\<close>

lemma mapSet_list_all2:
  assumes "list_all2 (\<lambda>e E. fst e = fst E \<and> P (snd e) (snd E)) m M"
    and "distinct (map fst m)"
    and "\<And>e E. e \<in> set m \<Longrightarrow> E \<in> set M \<Longrightarrow> fst e = fst E \<Longrightarrow> fst e \<noteq> k
          \<Longrightarrow> P (snd e) (snd E) \<Longrightarrow> Q (snd e) (snd E)"
    and "Q v A"
  shows "list_all2 (\<lambda>e E. fst e = fst E \<and> Q (snd e) (snd E)) (mapSet k v m) (mapSet k A M)"
  using assms
proof (induction m arbitrary: M)
  case Nil
  then show ?case by simp
next
  case (Cons e m)
  from Cons.prems(1) obtain E M' where M: "M = E # M'"
    and hd: "fst e = fst E" "P (snd e) (snd E)"
    and tl: "list_all2 (\<lambda>e E. fst e = fst E \<and> P (snd e) (snd E)) m M'"
    by (auto simp: list_all2_Cons1)
  obtain k1 v1 where e: "e = (k1, v1)" by (cases e)
  obtain k2 A2 where E: "E = (k2, A2)" by (cases E)
  from hd e E have kk: "k2 = k1" by simp
  from Cons.prems(2) e have notin: "k1 \<notin> fst ` set m" and d: "distinct (map fst m)" by auto
  show ?case
  proof (cases "k = k1")
    case True
    have "list_all2 (\<lambda>e E. fst e = fst E \<and> Q (snd e) (snd E)) m M'"
    proof (rule list.rel_mono_strong [OF tl])
      fix x y assume x: "x \<in> set m" and y: "y \<in> set M'"
        and r: "fst x = fst y \<and> P (snd x) (snd y)"
      from x notin True have "fst x \<noteq> k" by auto
      with Cons.prems(3) [of x y] x y r M show "fst x = fst y \<and> Q (snd x) (snd y)" by simp
    qed
    with True e E kk M Cons.prems(4) show ?thesis by simp
  next
    case False
    have step: "list_all2 (\<lambda>e E. fst e = fst E \<and> Q (snd e) (snd E)) (mapSet k v m) (mapSet k A M')"
    proof (rule Cons.IH [OF tl d _ Cons.prems(4)])
      fix x y assume "x \<in> set m" "y \<in> set M'" "fst x = fst y" "fst x \<noteq> k" "P (snd x) (snd y)"
      with Cons.prems(3) [of x y] M show "Q (snd x) (snd y)" by simp
    qed
    from Cons.prems(3) [of e E] hd False e M have "Q (snd e) (snd E)" by simp
    with step False e E kk M show ?thesis by simp
  qed
qed


lemma holds_frame:
  assumes "holds h v E" "objs h' v = objs h v"
    and "\<And>ob r. objs h v = Some ob \<Longrightarrow> versions ob = Some r \<Longrightarrow> arrs h' r = arrs h r"
  shows "holds h' v E"
proof -
  from assms(1) obtain ob where ob: "objs h v = Some ob" "absObj h ob = E"
    and al: "\<forall>r. versions ob = Some r \<longrightarrow> arrs h r \<noteq> None"
    by (auto simp: holds_def)
  have "readVersions h' ob = readVersions h ob"
    using assms(3) [OF ob(1)] by (cases "versions ob") (simp_all add: readVersions_def)
  then have "absObj h' ob = absObj h ob" by (simp add: absObj_def)
  moreover have "\<forall>r. versions ob = Some r \<longrightarrow> arrs h' r \<noteq> None"
    using al assms(3) [OF ob(1)] by auto
  ultimately show ?thesis using ob assms(2) by (auto simp: holds_def)
qed

lemma list_all2_map_of:
  "list_all2 (\<lambda>e E. fst e = fst E \<and> P (snd e) (snd E)) m M \<Longrightarrow>
   rel_option P (map_of m k) (map_of M k)"
proof (induction m arbitrary: M)
  case Nil
  then show ?case by simp
next
  case (Cons e m)
  then obtain E M' where M: "M = E # M'" "fst e = fst E" "P (snd e) (snd E)"
    "list_all2 (\<lambda>e E. fst e = fst E \<and> P (snd e) (snd E)) m M'"
    by (auto simp: list_all2_Cons1)
  obtain k1 v1 where e: "e = (k1, v1)" by (cases e)
  obtain k2 A2 where E: "E = (k2, A2)" by (cases E)
  from Cons.IH [OF M(4)] M e E show ?case by auto
qed

lemma list_all2_keys:
  "list_all2 (\<lambda>e E. fst e = fst E \<and> P (snd e) (snd E)) m M \<Longrightarrow> map fst m = map fst M"
  by (induction m M rule: list_all2_induct) auto

lemma mapSet_same:
  "distinct (map fst m) \<Longrightarrow> (k, v) \<in> set m \<Longrightarrow> mapSet k v m = m"
proof (induction m)
  case Nil
  then show ?case by simp
next
  case (Cons e m)
  obtain a b where e: "e = (a, b)" by (cases e)
  from Cons.prems(1) e have notin: "\<And>w. (a, w) \<notin> set m" and d: "distinct (map fst m)"
    by (auto simp: image_iff)
  show ?case
  proof (cases "k = a")
    case True
    with Cons.prems(2) e notin have "v = b" by auto
    with True e show ?thesis by simp
  next
    case False
    with Cons.prems(2) e have "(k, v) \<in> set m" by auto
    from Cons.IH [OF d this] False e show ?thesis by simp
  qed
qed

lemma entryH_mono:
  "entryH h0 h done n k v \<Longrightarrow> n \<le> n' \<Longrightarrow> entryH h0 h (done @ [a]) n' k v"
  by (cases k) (auto simp: entryH_def)

lemma simInv_step:
  assumes inv: "simInv h0 done M m h"
    and ok: "inputOk h0 a" and new: "a \<notin> set done"
  shows "\<exists>m' h'. mergeStepH m h a = Some (m', h')
           \<and> simInv h0 (done @ [a]) (mergeStep M (valueOf h0 a)) m' h'"
proof -
  from inv have rel: "list_all2 (\<lambda>e E. fst e = fst E \<and> holds h (snd e) (snd E)) m M"
    and f: "fresh h0 \<le> fresh h"
    and same: "\<And>x. x < fresh h0 \<Longrightarrow> objs h x = objs h0 x \<and> arrs h x = arrs h0 x"
    and ent: "\<And>k v. (k, v) \<in> set m \<Longrightarrow> entryH h0 h done (length m) k v"
    and dk: "distinct (map fst m)" and dv: "distinct (map snd m)"
    and dn: "\<And>v. v \<in> set done \<Longrightarrow> inputOk h0 v"
    by (auto simp: simInv_def)
  from ok obtain ob where a: "a < fresh h0" and ob0: "objs h0 a = Some ob"
    and ar0: "\<And>r. versions ob = Some r \<Longrightarrow> r < fresh h0 \<and> arrs h0 r \<noteq> None"
    by (auto simp: inputOk_def)
  from same [OF a] ob0 have ob: "objs h a = Some ob" by simp
  have arh: "\<And>r. versions ob = Some r \<Longrightarrow> arrs h r = arrs h0 r \<and> arrs h r \<noteq> None"
    using ar0 same by auto
  have rv: "readVersions h ob = readVersions h0 ob"
    using arh by (cases "versions ob") (simp_all add: readVersions_def)
  have "\<exists>avs. readVersions h ob = Some avs"
  proof (cases "versions ob")
    case None
    then show ?thesis by (simp add: readVersions_def)
  next
    case (Some r)
    from arh [OF Some] have "arrs h r \<noteq> None" by blast
    then obtain xs where "arrs h r = Some xs" by blast
    with Some show ?thesis by (simp add: readVersions_def)
  qed
  then obtain avs where avs: "readVersions h ob = Some avs" by blast
  let ?A = "valueOf h0 a"
  have A: "?A = absObj h0 ob" by (simp add: valueOf_def ob0)
  have Ah: "absObj h ob = ?A" by (simp add: A absObj_def rv)
  have Av: "versions ?A = avs" using avs rv by (simp add: A absObj_def)
  have Ab: "bundle_id ?A = bundle_id ob" by (simp add: A absObj_def)
  have keys: "map fst m = map fst M" by (rule list_all2_keys [OF rel])
  have len: "length M = length m" using keys by (metis length_map)
  have dn': "\<And>v. v \<in> set (done @ [a]) \<Longrightarrow> inputOk h0 v" using dn ok by auto
  have arh2: "\<And>r. versions ob = Some r \<Longrightarrow> arrs h r \<noteq> None"
    using arh by blast
  have hA: "holds h a ?A"
    unfolding holds_def using ob Ah arh2 by blast
  have val_done: "\<And>k v. (k, v) \<in> set m \<Longrightarrow> v \<noteq> a"
  proof -
    fix k v assume kv: "(k, v) \<in> set m"
    from ent [OF kv] show "v \<noteq> a"
      using a new by (cases k) (auto simp: entryH_def)
  qed
  show ?thesis
  proof (cases "trim (bundle_id ob) = []")
    case True
    have fresh_key: "KSym (length m) \<notin> fst ` set m"
    proof
      assume "KSym (length m) \<in> fst ` set m"
      then obtain v where "(KSym (length m), v) \<in> set m" by auto
      from ent [OF this] show False by (simp add: entryH_def)
    qed
    have st: "mergeStepH m h a = Some (mapSet (KSym (length m)) a m, h)"
      using ob True by (simp add: mergeStepH_def)
    have St: "mergeStep M ?A = mapSet (KSym (length m)) ?A M"
      using True Ab by (simp add: mergeStep_def len)
    have app: "mapSet (KSym (length m)) a m = m @ [(KSym (length m), a)]"
      by (rule mapSet_fresh [OF fresh_key])
    have 1: "list_all2 (\<lambda>e E. fst e = fst E \<and> holds h (snd e) (snd E))
        (mapSet (KSym (length m)) a m) (mapSet (KSym (length m)) ?A M)"
      by (rule mapSet_list_all2 [where P = "holds h" and Q = "holds h", OF rel dk _ hA]) simp
    have 4: "\<forall>(k, v) \<in> set (mapSet (KSym (length m)) a m).
        entryH h0 h (done @ [a]) (length (mapSet (KSym (length m)) a m)) k v"
    proof (clarify)
      fix k v assume "(k, v) \<in> set (mapSet (KSym (length m)) a m)"
      then consider "(k, v) \<in> set m" | "k = KSym (length m)" "v = a" by (auto simp: app)
      then show "entryH h0 h (done @ [a]) (length (mapSet (KSym (length m)) a m)) k v"
      proof cases
        case 1
        from entryH_mono [OF ent [OF 1], of "Suc (length m)" a] show ?thesis by (simp add: app)
      next
        case 2
        then show ?thesis by (simp add: entryH_def app)
      qed
    qed
    have 5: "distinct (map fst (mapSet (KSym (length m)) a m))"
      using dk fresh_key by (simp add: app)
    have "a \<notin> snd ` set m" using val_done by force
    then have 6: "distinct (map snd (mapSet (KSym (length m)) a m))"
      using dv by (simp add: app)
    have "simInv h0 (done @ [a]) (mergeStep M ?A) (mapSet (KSym (length m)) a m) h"
      unfolding simInv_def St using 1 f same 4 5 6 dn' by blast
    with st show ?thesis by blast
  next
    case False
    let ?b = "trim (bundle_id ob)"
    show ?thesis
    proof (cases "map_of m (KStr ?b)")
      case None
      then have fresh_key: "KStr ?b \<notin> fst ` set m" by (simp add: map_of_None_iff)
      from list_all2_map_of [OF rel, of "KStr ?b"] None
      have NoneM: "map_of M (KStr ?b) = None" by (cases "map_of M (KStr ?b)") simp_all
      let ?h' = "h\<lparr> arrs := (arrs h)(fresh h \<mapsto> avs),
          objs := (objs h)(fresh h + 1 \<mapsto> ob\<lparr> versions := Some (fresh h) \<rparr>),
          fresh := fresh h + 2 \<rparr>"
      let ?m' = "mapSet (KStr ?b) (fresh h + 1) m"
      have st: "mergeStepH m h a = Some (?m', ?h')"
        using ob False avs None by (simp add: mergeStepH_def Let_def)
      have St: "mergeStep M ?A = mapSet (KStr ?b) ?A M"
        using False Ab NoneM by (simp add: mergeStep_def)
      have app: "?m' = m @ [(KStr ?b, fresh h + 1)]"
        by (rule mapSet_fresh [OF fresh_key])
      have below: "\<And>k v. (k, v) \<in> set m \<Longrightarrow> v < fresh h
          \<and> (\<forall>ob r. objs h v = Some ob \<and> versions ob = Some r \<longrightarrow> r < fresh h)"
      proof -
        fix k v assume kv: "(k, v) \<in> set m"
        show "v < fresh h \<and> (\<forall>ob r. objs h v = Some ob \<and> versions ob = Some r \<longrightarrow> r < fresh h)"
        proof (cases k)
          case (KStr b')
          with ent [OF kv] show ?thesis by (auto simp: entryH_def)
        next
          case (KSym i)
          with ent [OF kv] have "v \<in> set done" by (simp add: entryH_def)
          from dn [OF this] same f show ?thesis by (fastforce simp: inputOk_def)
        qed
      qed
      have hNew: "holds ?h' (fresh h + 1) ?A"
        using avs Ah by (simp add: holds_def absObj_def readVersions_def)
      have 1: "list_all2 (\<lambda>e E. fst e = fst E \<and> holds ?h' (snd e) (snd E))
          ?m' (mapSet (KStr ?b) ?A M)"
      proof (rule mapSet_list_all2 [where P = "holds h" and Q = "holds ?h'", OF rel dk _ hNew])
        fix e E assume e: "e \<in> set m" and hl: "holds h (snd e) (snd E)"
        from below [of "fst e" "snd e"] e
        have b1: "snd e < fresh h"
          and b2: "\<And>ob r. objs h (snd e) = Some ob \<Longrightarrow> versions ob = Some r \<Longrightarrow> r < fresh h"
          by auto
        show "holds ?h' (snd e) (snd E)"
        proof (rule holds_frame [OF hl])
          show "objs ?h' (snd e) = objs h (snd e)" using b1 by simp
        next
          fix ob' r assume "objs h (snd e) = Some ob'" "versions ob' = Some r"
          from b2 [OF this] show "arrs ?h' r = arrs h r" by simp
        qed
      qed
      have 3: "\<forall>x < fresh h0. objs ?h' x = objs h0 x \<and> arrs ?h' x = arrs h0 x"
        using f same by simp
      have 4: "\<forall>(k, v) \<in> set ?m'. entryH h0 ?h' (done @ [a]) (length ?m') k v"
      proof (clarify)
        fix k v assume "(k, v) \<in> set ?m'"
        then consider "(k, v) \<in> set m" | "k = KStr ?b" "v = fresh h + 1"
          unfolding app by auto
        then show "entryH h0 ?h' (done @ [a]) (length ?m') k v"
        proof cases
          case 1
          from below [OF 1] have "v < fresh h" by simp
          with ent [OF 1] show ?thesis
            unfolding app by (cases k) (auto simp: entryH_def)
        next
          case 2
          then show ?thesis using f by (simp add: entryH_def)
        qed
      qed
      have 5: "distinct (map fst ?m')" unfolding app using dk fresh_key by simp
      have "fresh h + 1 \<notin> snd ` set m" using below by force
      then have 6: "distinct (map snd ?m')"
        unfolding app using dv by simp
      have "simInv h0 (done @ [a]) (mergeStep M ?A) ?m' ?h'"
        unfolding simInv_def St using 1 f 3 4 5 6 dn' by simp
      with st show ?thesis by blast
    next
      case (Some accAddr)
      then have mem: "(KStr ?b, accAddr) \<in> set m" by (rule map_of_SomeD)
      from list_all2_map_of [OF rel, of "KStr ?b"] Some
      obtain Acc where SomeM: "map_of M (KStr ?b) = Some Acc" and hAcc: "holds h accAddr Acc"
        by (cases "map_of M (KStr ?b)") auto
      from ent [OF mem] obtain acc where gt: "fresh h0 < accAddr" and lt: "accAddr < fresh h"
        and acc: "objs h accAddr = Some acc" and accArr: "versions acc = Some (accAddr - 1)"
        by (auto simp: entryH_def)
      from hAcc acc accArr obtain accVs where accVs: "arrs h (accAddr - 1) = Some accVs"
        and absAcc: "absObj h acc = Acc"
        by (auto simp: holds_def)
      have AccV: "versions Acc = accVs"
        using absAcc accArr accVs by (auto simp: absObj_def readVersions_def)
      let ?acc' = "acc\<lparr> name := orElse (name acc) (name ob), icon := orElse (icon acc) (icon ob),
          dev := orElse (dev acc) (dev ob), desc := orElse (desc acc) (desc ob) \<rparr>"
      let ?h' = "h\<lparr> objs := (objs h)(accAddr \<mapsto> ?acc'),
          arrs := (arrs h)(accAddr - 1 \<mapsto> addVersions (map versionId accVs) accVs avs) \<rparr>"
      have st: "mergeStepH m h a = Some (mapSet (KStr ?b) accAddr m, ?h')"
        using ob False avs Some acc accArr accVs by (simp add: mergeStepH_def Let_def)
      have mm: "mapSet (KStr ?b) accAddr m = m" by (rule mapSet_same [OF dk mem])
      have St: "mergeStep M ?A = mapSet (KStr ?b) (mergeInto Acc ?A) M"
        using False Ab SomeM by (simp add: mergeStep_def)
      have hNew: "holds ?h' accAddr (mergeInto Acc ?A)"
        using absAcc [symmetric] accArr Av AccV accVs
        by (simp add: holds_def absObj_def readVersions_def mergeInto_def A)
      have 1: "list_all2 (\<lambda>e E. fst e = fst E \<and> holds ?h' (snd e) (snd E))
          (mapSet (KStr ?b) accAddr m) (mapSet (KStr ?b) (mergeInto Acc ?A) M)"
      proof (rule mapSet_list_all2 [where P = "holds h" and Q = "holds ?h'", OF rel dk _ hNew])
        fix e E assume e: "e \<in> set m" and ne: "fst e \<noteq> KStr ?b"
          and hl: "holds h (snd e) (snd E)"
        obtain k v where kv: "e = (k, v)" by (cases e)
        have vne: "v \<noteq> accAddr"
        proof
          assume "v = accAddr"
          with e kv mem dv have "k = KStr ?b"
            by (metis distinct_map inj_on_def snd_conv prod.inject)
          with ne kv show False by simp
        qed
        have arrne: "\<And>ob' r. objs h v = Some ob' \<Longrightarrow> versions ob' = Some r \<Longrightarrow> r \<noteq> accAddr - 1"
        proof -
          fix ob' r assume o: "objs h v = Some ob'" and r: "versions ob' = Some r"
          show "r \<noteq> accAddr - 1"
          proof (cases k)
            case (KStr b')
            with ent [of k v] e kv o r have "r = v - 1" "fresh h0 < v" by (auto simp: entryH_def)
            with vne gt show ?thesis by simp
          next
            case (KSym i)
            with ent [of k v] e kv have "v \<in> set done" by (auto simp: entryH_def)
            from dn [OF this] same o r have "r < fresh h0" by (fastforce simp: inputOk_def)
            with gt show ?thesis by simp
          qed
        qed
        show "holds ?h' (snd e) (snd E)"
        proof (rule holds_frame [OF hl])
          show "objs ?h' (snd e) = objs h (snd e)" using vne kv by simp
        next
          fix ob' r assume "objs h (snd e) = Some ob'" "versions ob' = Some r"
          with arrne [of ob' r] kv show "arrs ?h' r = arrs h r" by simp
        qed
      qed
      have ge1: "fresh h0 \<le> accAddr - 1" using gt by arith
      have 3: "\<forall>x < fresh h0. objs ?h' x = objs h0 x \<and> arrs ?h' x = arrs h0 x"
      proof (intro allI impI)
        fix x assume x: "x < fresh h0"
        with gt ge1 have "x \<noteq> accAddr" "x \<noteq> accAddr - 1" by arith+
        with same [OF x] show "objs ?h' x = objs h0 x \<and> arrs ?h' x = arrs h0 x" by simp
      qed
      have 4: "\<forall>(k, v) \<in> set m. entryH h0 ?h' (done @ [a]) (length m) k v"
      proof (clarify)
        fix k v assume kv: "(k, v) \<in> set m"
        from ent [OF kv] accArr show "entryH h0 ?h' (done @ [a]) (length m) k v"
          by (cases k) (auto simp: entryH_def)
      qed
      have "simInv h0 (done @ [a]) (mergeStep M ?A) (mapSet (KStr ?b) accAddr m) ?h'"
        unfolding simInv_def St using 1 f 3 4 dk dv dn' by (simp add: mm)
      with st show ?thesis by blast
    qed
  qed
qed

lemma simInv_loop:
  assumes "simInv h0 done M m h" "\<forall>a \<in> set as. inputOk h0 a" "distinct as"
    "set as \<inter> set done = {}"
  shows "\<exists>m' h'. mergeLoopH m h as = Some (m', h')
           \<and> simInv h0 (done @ as) (foldl mergeStep M (map (valueOf h0) as)) m' h'"
  using assms
proof (induction as arbitrary: "done" M m h)
  case Nil
  then show ?case by simp
next
  case (Cons a as)
  from Cons.prems have ok: "inputOk h0 a" and new: "a \<notin> set done" by auto
  from simInv_step [OF Cons.prems(1) ok new] obtain m1 h1 where
    s: "mergeStepH m h a = Some (m1, h1)"
    and i: "simInv h0 (done @ [a]) (mergeStep M (valueOf h0 a)) m1 h1" by blast
  from Cons.prems have r: "\<forall>a \<in> set as. inputOk h0 a" "distinct as"
    "set as \<inter> set (done @ [a]) = {}" by auto
  from Cons.IH [OF i r] obtain m' h' where
    l: "mergeLoopH m1 h1 as = Some (m', h')"
    and i': "simInv h0 ((done @ [a]) @ as)
        (foldl mergeStep (mergeStep M (valueOf h0 a)) (map (valueOf h0) as)) m' h'" by blast
  from s l have "mergeLoopH m h (a # as) = Some (m', h')" by simp
  with i' show ?case by simp
qed

lemma sortVersions_empty: "versions A = [] \<Longrightarrow> sortVersions dp A = A"
  by (simp add: sortVersions_def sortBy_def)

lemma sortLoopH_holds:
  assumes "list_all2 (holds h) vs As" "distinct vs"
    and "\<forall>v \<in> set vs. \<forall>w \<in> set vs. \<forall>r. arrOf h v = Some r \<and> arrOf h w = Some r \<longrightarrow> v = w"
  shows "\<exists>h'. sortLoopH dp h vs = Some h' \<and> objs h' = objs h
           \<and> (\<forall>r. (\<forall>v \<in> set vs. arrOf h v \<noteq> Some r) \<longrightarrow> arrs h' r = arrs h r)
           \<and> list_all2 (\<lambda>v A. holds h' v (sortVersions dp A)) vs As"
  using assms
proof (induction vs arbitrary: As h)
  case Nil
  then show ?case by simp
next
  case (Cons v vs)
  from Cons.prems(1) obtain A As' where As: "As = A # As'" and hv: "holds h v A"
    and tl: "list_all2 (holds h) vs As'"
    by (auto simp: list_all2_Cons1)
  from hv obtain ob where ob: "objs h v = Some ob" and ab: "absObj h ob = A"
    and al: "\<And>r. versions ob = Some r \<Longrightarrow> arrs h r \<noteq> None"
    by (auto simp: holds_def)
  from Cons.prems(2) have vn: "v \<notin> set vs" and dvs: "distinct vs" by auto
  show ?case
  proof (cases "versions ob")
    case None
    have inj: "\<forall>v \<in> set vs. \<forall>w \<in> set vs. \<forall>r. arrOf h v = Some r \<and> arrOf h w = Some r \<longrightarrow> v = w"
      using Cons.prems(3) by simp
    from Cons.IH [OF tl dvs inj] obtain h' where
      s: "sortLoopH dp h vs = Some h'" and o: "objs h' = objs h"
      and fr: "\<forall>r. (\<forall>v \<in> set vs. arrOf h v \<noteq> Some r) \<longrightarrow> arrs h' r = arrs h r"
      and r: "list_all2 (\<lambda>v A. holds h' v (sortVersions dp A)) vs As'" by blast
    have "versions A = []" using ab None by (auto simp: absObj_def readVersions_def)
    then have sA: "sortVersions dp A = A" by (rule sortVersions_empty)
    have "holds h' v A"
    proof (rule holds_frame [OF hv])
      show "objs h' v = objs h v" by (simp add: o)
    next
      fix ob' r assume "objs h v = Some ob'" "versions ob' = Some r"
      with ob None show "arrs h' r = arrs h r" by simp
    qed
    with sA have hd: "holds h' v (sortVersions dp A)" by simp
    have "sortLoopH dp h (v # vs) = Some h'" using ob None s by simp
    moreover have "\<forall>r. (\<forall>w \<in> set (v # vs). arrOf h w \<noteq> Some r) \<longrightarrow> arrs h' r = arrs h r"
      using fr by simp
    ultimately show ?thesis using o hd r As by simp
  next
    case (Some r)
    from al [OF Some] obtain xs where xs: "arrs h r = Some xs" by blast
    let ?h1 = "h\<lparr> arrs := (arrs h)(r \<mapsto> sortBy (cmpVersionRecords dp) xs) \<rparr>"
    have av: "arrOf h v = Some r" by (simp add: arrOf_def ob Some)
    have other: "\<And>w. w \<in> set vs \<Longrightarrow> arrOf h w \<noteq> Some r"
    proof
      fix w assume w: "w \<in> set vs" and "arrOf h w = Some r"
      with Cons.prems(3) av have "v = w" by simp
      with vn w show False by simp
    qed
    have same_arr: "\<And>w. arrOf ?h1 w = arrOf h w" by (simp add: arrOf_def)
    have tl1: "list_all2 (holds ?h1) vs As'"
    proof (rule list.rel_mono_strong [OF tl])
      fix w B assume w: "w \<in> set vs" and hw: "holds h w B"
      show "holds ?h1 w B"
      proof (rule holds_frame [OF hw])
        show "objs ?h1 w = objs h w" by simp
      next
        fix ob' r' assume "objs h w = Some ob'" "versions ob' = Some r'"
        then have "arrOf h w = Some r'" by (simp add: arrOf_def)
        with other [OF w] have "r' \<noteq> r" by auto
        then show "arrs ?h1 r' = arrs h r'" by simp
      qed
    qed
    have inj1: "\<forall>v \<in> set vs. \<forall>w \<in> set vs. \<forall>r. arrOf ?h1 v = Some r \<and> arrOf ?h1 w = Some r \<longrightarrow> v = w"
      using Cons.prems(3) by (simp add: same_arr)
    from Cons.IH [OF tl1 dvs inj1] obtain h' where
      s: "sortLoopH dp ?h1 vs = Some h'" and o: "objs h' = objs ?h1"
      and fr: "\<forall>r'. (\<forall>w \<in> set vs. arrOf ?h1 w \<noteq> Some r') \<longrightarrow> arrs h' r' = arrs ?h1 r'"
      and rl: "list_all2 (\<lambda>v A. holds h' v (sortVersions dp A)) vs As'" by blast
    from fr other have ar: "arrs h' r = Some (sortBy (cmpVersionRecords dp) xs)"
      by (simp add: same_arr)
    have vA: "versions A = xs" using ab Some xs by (auto simp: absObj_def readVersions_def)
    have "absObj h' ob = sortVersions dp A"
      using ab [symmetric] Some ar xs
      by (simp add: absObj_def readVersions_def sortVersions_def)
    then have hd: "holds h' v (sortVersions dp A)"
      using ob o Some ar by (simp add: holds_def)
    have run: "sortLoopH dp h (v # vs) = Some h'" using ob Some xs s by simp
    have fr': "\<forall>r'. (\<forall>w \<in> set (v # vs). arrOf h w \<noteq> Some r') \<longrightarrow> arrs h' r' = arrs h r'"
    proof (intro allI impI)
      fix r' assume a: "\<forall>w \<in> set (v # vs). arrOf h w \<noteq> Some r'"
      then have "r' \<noteq> r" using av by auto
      moreover from a have "\<forall>w \<in> set vs. arrOf ?h1 w \<noteq> Some r'" by (simp add: same_arr)
      ultimately show "arrs h' r' = arrs h r'" using fr by simp
    qed
    from run o hd rl As fr' show ?thesis by simp
  qed
qed

lemma wfInput_inputOk: "wfInput h apps \<Longrightarrow> a \<in> set apps \<Longrightarrow> inputOk h a"
  by (simp add: wfInput_def inputOk_def)

lemma simInv_arrays:
  assumes inv: "simInv h0 apps M m h" and wf: "wfInput h0 apps"
    and v: "v \<in> snd ` set m" and w: "w \<in> snd ` set m"
    and rv: "arrOf h v = Some r" and rw: "arrOf h w = Some r"
  shows "v = w"
proof -
  from inv have same: "\<And>x. x < fresh h0 \<Longrightarrow> objs h x = objs h0 x \<and> arrs h x = arrs h0 x"
    and ent: "\<And>k v. (k, v) \<in> set m \<Longrightarrow> entryH h0 h apps (length m) k v"
    by (auto simp: simInv_def)
  have cls: "\<And>u. u \<in> snd ` set m \<Longrightarrow> arrOf h u = Some r \<Longrightarrow>
      (fresh h0 < u \<and> r = u - 1)
      \<or> (u \<in> set apps \<and> u < fresh h0 \<and> r < fresh h0 \<and> arrOf h0 u = Some r)"
  proof -
    fix u assume "u \<in> snd ` set m" and ru: "arrOf h u = Some r"
    then obtain k where ku: "(k, u) \<in> set m" by auto
    show "(fresh h0 < u \<and> r = u - 1)
        \<or> (u \<in> set apps \<and> u < fresh h0 \<and> r < fresh h0 \<and> arrOf h0 u = Some r)"
    proof (cases k)
      case (KStr b)
      with ent [OF ku] ru show ?thesis by (auto simp: entryH_def arrOf_def)
    next
      case (KSym i)
      with ent [OF ku] have ua: "u \<in> set apps" by (simp add: entryH_def)
      from wfInput_inputOk [OF wf ua] obtain ob where u0: "u < fresh h0"
        and ob: "objs h0 u = Some ob"
        and ar: "\<And>r. versions ob = Some r \<Longrightarrow> r < fresh h0"
        by (auto simp: inputOk_def)
      from same [OF u0] ob have "objs h u = Some ob" by simp
      with ru have vr: "versions ob = Some r" by (simp add: arrOf_def)
      with ar ob ua u0 show ?thesis by (simp add: arrOf_def)
    qed
  qed
  from cls [OF v rv] cls [OF w rw] show ?thesis
  proof (elim disjE conjE)
    assume "fresh h0 < v" "r = v - 1" "fresh h0 < w" "r = w - 1"
    then show ?thesis by arith
  next
    assume "fresh h0 < v" "r = v - 1" "r < fresh h0"
    then show ?thesis by arith
  next
    assume "fresh h0 < w" "r = w - 1" "r < fresh h0"
    then show ?thesis by arith
  next
    assume a: "v \<in> set apps" "arrOf h0 v = Some r" "w \<in> set apps" "arrOf h0 w = Some r"
    from a(2) obtain ov where ov: "objs h0 v = Some ov" "versions ov = Some r"
      by (auto simp: arrOf_def split: option.splits)
    from a(4) obtain ow where ow: "objs h0 w = Some ow" "versions ow = Some r"
      by (auto simp: arrOf_def split: option.splits)
    from wf a(1,3) ov ow show ?thesis unfolding wfInput_def by blast
  qed
qed

theorem mergeByBundleH_refines:
  assumes wf: "wfInput h apps"
  shows "\<exists>rs h'. mergeByBundleH dp h apps = Some (rs, h')
           \<and> list_all2 (holds h') rs (mergeByBundle dp (map (valueOf h) apps))"
proof -
  have i0: "simInv h [] [] [] h" by (simp add: simInv_def)
  have oks: "\<forall>a \<in> set apps. inputOk h a" using wfInput_inputOk [OF wf] by blast
  have d: "distinct apps" using wf by (simp add: wfInput_def)
  from simInv_loop [OF i0 oks d] obtain m h1 where
    l: "mergeLoopH [] h apps = Some (m, h1)"
    and inv: "simInv h apps (foldl mergeStep [] (map (valueOf h) apps)) m h1"
    by auto
  let ?M = "foldl mergeStep [] (map (valueOf h) apps)"
  from inv have rel: "list_all2 (\<lambda>e E. fst e = fst E \<and> holds h1 (snd e) (snd E)) m ?M"
    and dv: "distinct (map snd m)" by (auto simp: simInv_def)
  from rel have rel': "list_all2 (holds h1) (map snd m) (map snd ?M)"
    by (simp add: list_all2_map1 list_all2_map2 list_all2_mono)
  have inj: "\<forall>v \<in> set (map snd m). \<forall>w \<in> set (map snd m). \<forall>r.
      arrOf h1 v = Some r \<and> arrOf h1 w = Some r \<longrightarrow> v = w"
    using simInv_arrays [OF inv wf] by auto
  from sortLoopH_holds [OF rel' dv inj, of dp] obtain h' where
    s: "sortLoopH dp h1 (map snd m) = Some h'"
    and r: "list_all2 (\<lambda>v A. holds h' v (sortVersions dp A)) (map snd m) (map snd ?M)"
    by blast
  from l s have run: "mergeByBundleH dp h apps = Some (map snd m, h')"
    by (simp add: mergeByBundleH_def)
  from r have "list_all2 (holds h') (map snd m) (mergeByBundle dp (map (valueOf h) apps))"
    by (simp add: mergeByBundle_def list_all2_map2)
  with run show ?thesis by blast
qed

lemma oneAppHeap_wfInput: "wfInput (oneAppHeap b) [0]"
  by (simp add: wfInput_def oneAppHeap_def mkObj_def)

end
